theory Spec2Isabelle
  imports Complex_Main "HOL-Library.Word"
begin

unbundle bit_operations_syntax

section \<open>Numbers of the source language\<close>

text \<open>
  The program is TypeScript: a number is a double. Where the code only counts (indexes, byte
  values, character cells, the loop counters of the text and shape code) the values are small
  integers, on which the arithmetic of doubles is exact; they are modelled as \<open>int\<close>. The
  plotter accepts any number and computes with fractions; its values are modelled as doubles,
  in the next section. The bitwise operators convert their operands to 32-bit signed integers
  first.
\<close>

definition toInt32 :: "int \<Rightarrow> int" where
  "toInt32 i = (i + 2 ^ 31) mod 2 ^ 32 - 2 ^ 31"

text \<open>\<open>a >> b\<close> for an integer \<open>a\<close> and a literal \<open>b\<close>.\<close>

definition shr :: "int \<Rightarrow> nat \<Rightarrow> int" where
  "shr a b = drop_bit b (toInt32 a)"

text \<open>\<open>a % m\<close> for a positive literal \<open>m\<close>: the remainder takes the sign of \<open>a\<close>.\<close>

definition jsRem :: "int \<Rightarrow> int \<Rightarrow> int" where
  "jsRem a m = (if 0 \<le> a then a mod m else - ((- a) mod m))"

text \<open>\<open>1 << b\<close>: only the low five bits of the shift count are used.\<close>

definition shl1 :: "int \<Rightarrow> int" where
  "shl1 b = toInt32 (push_bit (nat (b mod 32)) 1)"

text \<open>\<open>Math.round\<close> of a finite value: the nearest integer, a half rounding up.\<close>

definition mathRound :: "rat \<Rightarrow> int" where
  "mathRound v = \<lfloor>v + 1 / 2\<rfloor>"

text \<open>The integer part of a finite value, as the conversion to a 32-bit integer takes it.\<close>

definition jsTrunc :: "rat \<Rightarrow> int" where
  "jsTrunc r = (if 0 \<le> r then \<lfloor>r\<rfloor> else \<lceil>r\<rceil>)"

section \<open>Doubles\<close>

text \<open>
  A double is a finite value, held as the rational number it equals, an infinity, or NaN.
  The sign of a zero is not kept: the comparisons and the bit operators do not see it, and
  the one division of the code, in the range mapping, divides by the difference of the two
  bounds of the scale, which is at least 100 in every state the program reaches; a
  difference that is zero is taken as the positive zero, which it is for equal bounds.
\<close>

datatype number = Finite rat | PosInf | NegInf | NaN

text \<open>The nearest integer, a tie going to the even one.\<close>

definition roundHalfEven :: "rat \<Rightarrow> int" where
  "roundHalfEven q =
     (let f = \<lfloor>q\<rfloor>; d = q - of_int f
      in if d < 1 / 2 then f else if 1 / 2 < d then f + 1 else if even f then f else f + 1)"

text \<open>
  The binary exponent of a value \<open>y \<ge> 0\<close>: the largest \<open>e\<close> with \<open>2 ^ e \<le> y\<close>, kept
  within the exponent range -1022 to 1023 of the normal doubles.
\<close>

definition exponent :: "rat \<Rightarrow> int" where
  "exponent y = Max (insert (- 1022) (Set.filter (\<lambda>e. 2 powi e \<le> y) {- 1022 .. 1023}))"

text \<open>
  Rounding of an exact result to a double, as the arithmetic operators do it (IEEE 754
  binary64, round to nearest, ties to even): the significand has 53 bits, so a value of
  exponent \<open>e\<close> is rounded to a multiple of \<open>2 ^ (e - 52)\<close>; below the normal range the
  multiples of \<open>2 ^ -1074\<close> are the subnormal doubles. A rounded magnitude of \<open>2 ^ 1024\<close>
  or more is an infinity.
\<close>

definition roundToDouble :: "rat \<Rightarrow> rat" where
  "roundToDouble x =
     (let u = 2 powi (exponent \<bar>x\<bar> - 52) in of_int (roundHalfEven (x / u)) * u)"

definition toDouble :: "rat \<Rightarrow> number" where
  "toDouble x =
     (let r = roundToDouble x
      in if 2 powi 1024 \<le> r then PosInf else if r \<le> - (2 powi 1024) then NegInf else Finite r)"

text \<open>The sign of a number as -1, 0 or 1 (0 for NaN), and the infinity of a given sign.\<close>

definition numSign :: "number \<Rightarrow> rat" where
  "numSign a = (case a of Finite x \<Rightarrow> sgn x | PosInf \<Rightarrow> 1 | NegInf \<Rightarrow> - 1 | NaN \<Rightarrow> 0)"

definition infinity :: "rat \<Rightarrow> number" where
  "infinity sg = (if 0 < sg then PosInf else if sg < 0 then NegInf else NaN)"

text \<open>\<open>a + b\<close>, \<open>a - b\<close>, \<open>a * b\<close> and \<open>a / b\<close> on doubles.\<close>

fun nadd :: "number \<Rightarrow> number \<Rightarrow> number" where
  "nadd (Finite a) (Finite b) = toDouble (a + b)"
| "nadd NaN b = NaN"
| "nadd a NaN = NaN"
| "nadd PosInf NegInf = NaN"
| "nadd NegInf PosInf = NaN"
| "nadd PosInf b = PosInf"
| "nadd a PosInf = PosInf"
| "nadd NegInf b = NegInf"
| "nadd a NegInf = NegInf"

fun nsub :: "number \<Rightarrow> number \<Rightarrow> number" where
  "nsub (Finite a) (Finite b) = toDouble (a - b)"
| "nsub NaN b = NaN"
| "nsub a NaN = NaN"
| "nsub PosInf PosInf = NaN"
| "nsub NegInf NegInf = NaN"
| "nsub PosInf b = PosInf"
| "nsub a PosInf = NegInf"
| "nsub NegInf b = NegInf"
| "nsub a NegInf = PosInf"

fun nmul :: "number \<Rightarrow> number \<Rightarrow> number" where
  "nmul (Finite a) (Finite b) = toDouble (a * b)"
| "nmul NaN b = NaN"
| "nmul a NaN = NaN"
| "nmul a b = infinity (numSign a * numSign b)"

fun ndiv :: "number \<Rightarrow> number \<Rightarrow> number" where
  "ndiv (Finite a) (Finite b) = (if b = 0 then infinity (sgn a) else toDouble (a / b))"
| "ndiv NaN b = NaN"
| "ndiv a NaN = NaN"
| "ndiv (Finite a) b = Finite 0"
| "ndiv a (Finite b) = infinity (numSign a * (if b < 0 then - 1 else 1))"
| "ndiv a b = NaN"

text \<open>\<open>a < b\<close> and \<open>a > b\<close>: false when either side is NaN.\<close>

fun nlt :: "number \<Rightarrow> number \<Rightarrow> bool" where
  "nlt (Finite a) (Finite b) = (a < b)"
| "nlt NaN b = False"
| "nlt a NaN = False"
| "nlt a NegInf = False"
| "nlt NegInf b = True"
| "nlt PosInf b = False"
| "nlt a PosInf = True"

definition ngt :: "number \<Rightarrow> number \<Rightarrow> bool" where
  "ngt a b = nlt b a"

text \<open>\<open>Math.round\<close>: an infinity and NaN are returned as they are.\<close>

definition numRound :: "number \<Rightarrow> number" where
  "numRound v = (case v of Finite r \<Rightarrow> Finite (of_int (mathRound r)) | _ \<Rightarrow> v)"

text \<open>
  The conversion the bit operators apply to an operand before the 32-bit wrap-around: the
  integer part, and 0 for an infinity and for NaN.
\<close>

definition numTrunc :: "number \<Rightarrow> int" where
  "numTrunc v = (case v of Finite r \<Rightarrow> jsTrunc r | _ \<Rightarrow> 0)"

text \<open>
  \<open>a % m\<close> for a positive literal \<open>m\<close>: the remainder is exact and takes the sign of
  \<open>a\<close>; it is NaN when \<open>a\<close> is not finite.
\<close>

definition numRem :: "number \<Rightarrow> int \<Rightarrow> number" where
  "numRem a m =
     (case a of Finite r \<Rightarrow> Finite (r - of_int m * of_int (jsTrunc (r / of_int m))) | _ \<Rightarrow> NaN)"

section \<open>Byte buffers\<close>

text \<open>
  A platform \<open>Buffer\<close> holds bytes. Reading outside the buffer gives 0 and writing outside
  it does nothing; a value stored is cut to its low eight bits.
\<close>

type_synonym byte = "8 word"

definition getByte :: "byte list \<Rightarrow> int \<Rightarrow> int" where
  "getByte buf off =
     (if 0 \<le> off \<and> off < int (length buf) then uint (buf ! nat off) else 0)"

definition setByte :: "byte list \<Rightarrow> int \<Rightarrow> int \<Rightarrow> byte list" where
  "setByte buf off v =
     (if 0 \<le> off \<and> off < int (length buf) then buf[nat off := word_of_int v] else buf)"

section \<open>Display state\<close>

text \<open>
  The module-level variables of the display code, with the bus made explicit: \<open>bus\<close> is the
  list of buffers handed to \<open>pins.i2cWriteBuffer\<close>, each with the address it was sent to,
  oldest first, and \<open>ledText\<close> the messages given to \<open>basic.showString\<close>. The scratch
  buffers \<open>writeOneByteBuf\<close>, \<open>writeTwoByteBuf\<close>, \<open>writeThreeByteBuf\<close> and \<open>ackBuf\<close>
  are filled completely before every use, so each write is modelled by the bytes it sends.
\<close>

record display =
  displayAddress :: int
  initialised :: int
  screenBuf :: "byte list"
  plotArray :: "number list"
  graphYMin :: number
  graphYMax :: number
  previousYPlot :: number
  bus :: "(int \<times> byte list) list"
  ledText :: "string list"

definition DISPLAY_ADDR_1 :: int where "DISPLAY_ADDR_1 = 60"
definition DISPLAY_ADDR_2 :: int where "DISPLAY_ADDR_2 = 10"
definition NUMBER_OF_CHAR_PER_LINE :: int where "NUMBER_OF_CHAR_PER_LINE = 26"
definition GRAPH_Y_MIN_LOCATION :: int where "GRAPH_Y_MIN_LOCATION = 63"
definition GRAPH_Y_MAX_LOCATION :: int where "GRAPH_Y_MAX_LOCATION = 20"

text \<open>The values the module-level declarations give when the program starts.\<close>

definition initial_display :: display where
  "initial_display =
     \<lparr> displayAddress = DISPLAY_ADDR_1, initialised = 0,
       screenBuf = replicate 1025 0, plotArray = [],
       graphYMin = Finite 0, graphYMax = Finite 100, previousYPlot = Finite 0,
       bus = [], ledText = [] \<rparr>"

section \<open>Bus command layer\<close>

definition i2cWriteBuffer :: "byte list \<Rightarrow> display \<Rightarrow> display" where
  "i2cWriteBuffer buf s = s\<lparr>bus := bus s @ [(displayAddress s, buf)]\<rparr>"

definition writeOneByte :: "int \<Rightarrow> display \<Rightarrow> display" where
  "writeOneByte regValue = i2cWriteBuffer [0, word_of_int regValue]"

definition writeTwoByte :: "int \<Rightarrow> int \<Rightarrow> display \<Rightarrow> display" where
  "writeTwoByte regValue1 regValue2 =
     i2cWriteBuffer [0, word_of_int regValue1, word_of_int regValue2]"

definition writeThreeByte :: "int \<Rightarrow> int \<Rightarrow> int \<Rightarrow> display \<Rightarrow> display" where
  "writeThreeByte regValue1 regValue2 regValue3 =
     i2cWriteBuffer [0, word_of_int regValue1, word_of_int regValue2, word_of_int regValue3]"

definition set_pos :: "int \<Rightarrow> int \<Rightarrow> display \<Rightarrow> display" where
  "set_pos col page s =
     writeOneByte (0x10 OR shr col 4)
       (writeOneByte (0x00 OR jsRem col 16)
         (writeOneByte (0xb0 OR page) s))"

definition clearBit :: "int \<Rightarrow> int \<Rightarrow> int" where
  "clearBit d b = (if d AND shl1 b \<noteq> 0 then d - shl1 b else d)"

definition setScreenAddr :: "int option \<Rightarrow> int" where
  "setScreenAddr selection =
     (if selection = Some 1 then DISPLAY_ADDR_1
      else if selection = Some 2 then DISPLAY_ADDR_2
      else DISPLAY_ADDR_1)"

section \<open>Controller lifecycle\<close>

text \<open>
  The configuration commands of \<open>initDisplay\<close>, from display-off to display-on, in the
  order they are sent.
\<close>

definition initCommands :: "display \<Rightarrow> display" where
  "initCommands =
     writeOneByte 0xAF \<circ> writeTwoByte 0xD6 0 \<circ> writeOneByte 0xA6 \<circ>
     writeTwoByte 0xDB 0x40 \<circ> writeTwoByte 0xd9 0xF1 \<circ> writeTwoByte 0x81 0xCF \<circ>
     writeTwoByte 0xDA 0x12 \<circ> writeOneByte 0xc8 \<circ> writeOneByte (0xa0 OR 0x1) \<circ>
     writeThreeByte 0x22 0 63 \<circ> writeThreeByte 0x21 0 127 \<circ> writeTwoByte 0x20 0x00 \<circ>
     writeTwoByte 0x8D 0x14 \<circ> writeOneByte (0 OR 0x0) \<circ> writeTwoByte 0xD3 0x00 \<circ>
     writeTwoByte 0xA8 0x3F \<circ> writeTwoByte 0xD5 0xF0 \<circ> writeOneByte 0xA4 \<circ>
     writeOneByte 0xAE"

text \<open>
  The part of \<open>clear\<close> after its lazy-initialisation test: zero the frame buffer, restore
  the marker byte, home the cursor and send the whole buffer.
\<close>

definition clearScreen :: "display \<Rightarrow> display" where
  "clearScreen s =
     (let s = s\<lparr>screenBuf := replicate (length (screenBuf s)) 0\<rparr>;
          s = s\<lparr>screenBuf := setByte (screenBuf s) 0 0x40\<rparr>;
          s = set_pos 0 0 s
      in i2cWriteBuffer (screenBuf s) s)"

text \<open>
  \<open>initDisplay\<close> and \<open>clear\<close> call each other. \<open>initDisplay\<close> sets \<open>initialised\<close> to 1
  before it calls \<open>clear()\<close>, so the test in that inner call fails and the call is the
  address selection followed by \<open>clearScreen\<close>; it is written out so here. The argument
  \<open>dev\<close> is the environment: whether a write to the given bus address is acknowledged
  (\<open>i2cWriteBuffer\<close> returning anything other than -1010).
\<close>

definition initDisplay :: "(int \<Rightarrow> bool) \<Rightarrow> int option \<Rightarrow> display \<Rightarrow> display" where
  "initDisplay dev screen s =
     (let s = s\<lparr>displayAddress := setScreenAddr screen\<rparr>;
          s = i2cWriteBuffer [0, 0xAF] s
      in if \<not> dev (displayAddress s)
         then s\<lparr>ledText := ledText s @ [''ERROR - no display'']\<rparr>
         else (let s = initCommands s;
                   s = s\<lparr>initialised := 1\<rparr>;
                   s = s\<lparr>displayAddress := setScreenAddr None\<rparr>
               in clearScreen s))"

definition clear :: "(int \<Rightarrow> bool) \<Rightarrow> int option \<Rightarrow> display \<Rightarrow> display" where
  "clear dev screen s =
     (let s = s\<lparr>displayAddress := setScreenAddr screen\<rparr>;
          s = (if initialised s = 0 then initDisplay dev (Some 1) s else s)
      in clearScreen s)"

section \<open>Pixel primitives\<close>

definition setPixel :: "(int \<Rightarrow> bool) \<Rightarrow> int \<Rightarrow> int \<Rightarrow> int option \<Rightarrow> display \<Rightarrow> display" where
  "setPixel dev x y screen s =
     (let s = s\<lparr>displayAddress := setScreenAddr screen\<rparr>;
          s = (if initialised s = 0 then initDisplay dev None s else s);
          page = shr y 3;
          shift_page = jsRem y 8;
          ind = x + page * 128 + 1;
          screenPixel = getByte (screenBuf s) ind OR shl1 shift_page;
          s = s\<lparr>screenBuf := setByte (screenBuf s) ind screenPixel\<rparr>;
          s = set_pos x page s
      in i2cWriteBuffer [0x40, word_of_int screenPixel] s)"

definition clearPixel :: "(int \<Rightarrow> bool) \<Rightarrow> int \<Rightarrow> int \<Rightarrow> int option \<Rightarrow> display \<Rightarrow> display" where
  "clearPixel dev x y screen s =
     (let s = s\<lparr>displayAddress := setScreenAddr screen\<rparr>;
          s = (if initialised s = 0 then initDisplay dev (Some 1) s else s);
          page2 = shr y 3;
          shift_page2 = jsRem y 8;
          ind2 = x + page2 * 128 + 1;
          screenPixel2 = clearBit (getByte (screenBuf s) ind2) shift_page2;
          s = s\<lparr>screenBuf := setByte (screenBuf s) ind2 screenPixel2\<rparr>;
          s = set_pos x page2 s
      in i2cWriteBuffer [0x40, word_of_int screenPixel2] s)"

section \<open>Glyph table\<close>

text \<open>
  \<open>font\<close> has an entry for each of the codes 0 to 127: the codes 0 to 31 share one
  bitmap and the others have their own. A code past the table reads \<open>undefined\<close>, which
  the bit test of the rasterizer treats as 0.
\<close>

definition fontTable :: "int list" where
  "fontTable =
     [0x0022D422, 0x0022D422, 0x0022D422, 0x0022D422, 0x0022D422, 0x0022D422,
      0x0022D422, 0x0022D422, 0x0022D422, 0x0022D422, 0x0022D422, 0x0022D422,
      0x0022D422, 0x0022D422, 0x0022D422, 0x0022D422, 0x0022D422, 0x0022D422,
      0x0022D422, 0x0022D422, 0x0022D422, 0x0022D422, 0x0022D422, 0x0022D422,
      0x0022D422, 0x0022D422, 0x0022D422, 0x0022D422, 0x0022D422, 0x0022D422,
      0x0022D422, 0x0022D422, 0x00000000, 0x000002E0, 0x00018060, 0x00AFABEA,
      0x00AED6EA, 0x01991133, 0x010556AA, 0x00000060, 0x000045C0, 0x00003A20,
      0x00051140, 0x00023880, 0x00002200, 0x00021080, 0x00000100, 0x00111110,
      0x0007462E, 0x00087E40, 0x000956B9, 0x0005D629, 0x008FA54C, 0x009AD6B7,
      0x008ADA88, 0x00119531, 0x00AAD6AA, 0x0022B6A2, 0x00000140, 0x00002A00,
      0x0008A880, 0x00052940, 0x00022A20, 0x0022D422, 0x00E4D62E, 0x000F14BE,
      0x000556BF, 0x0008C62E, 0x0007463F, 0x0008D6BF, 0x000094BF, 0x00CAC62E,
      0x000F909F, 0x000047F1, 0x0017C629, 0x0008A89F, 0x0008421F, 0x01F1105F,
      0x01F4105F, 0x0007462E, 0x000114BF, 0x000B6526, 0x010514BF, 0x0004D6B2,
      0x0010FC21, 0x0007C20F, 0x00744107, 0x01F4111F, 0x000D909B, 0x00117041,
      0x0008CEB9, 0x0008C7E0, 0x01041041, 0x000FC620, 0x00010440, 0x01084210,
      0x00000820, 0x010F4A4C, 0x0004529F, 0x00094A4C, 0x000FD288, 0x000956AE,
      0x000097C4, 0x0007D6A2, 0x000C109F, 0x000003A0, 0x0006C200, 0x0008289F,
      0x000841E0, 0x01E1105E, 0x000E085E, 0x00064A4C, 0x0002295E, 0x000F2944,
      0x0001085C, 0x00012A90, 0x010A51E0, 0x010F420E, 0x00644106, 0x01E8221E,
      0x00093192, 0x00222292, 0x00095B52, 0x0008FC80, 0x000003E0, 0x000013F1,
      0x00841080, 0x0022D422]"

definition font :: "nat \<Rightarrow> int" where
  "font code = (if code < length fontTable then fontTable ! code else 0)"

section \<open>Text renderer\<close>

datatype ShowAlign = Left | Centre | Right

text \<open>
  Strings are lists of 8-bit characters. \<open>charAt\<close> gives the empty string past the end,
  \<open>substr\<close> takes a start and a length, and \<open>Buffer.slice\<close> takes an offset and a
  length, both cut to the buffer.
\<close>

definition charAt :: "string \<Rightarrow> nat \<Rightarrow> string" where
  "charAt s i = (if i < length s then [s ! i] else [])"

definition substr :: "string \<Rightarrow> nat \<Rightarrow> nat \<Rightarrow> string" where
  "substr s start len = take len (drop start s)"

definition bufSlice :: "byte list \<Rightarrow> int \<Rightarrow> int \<Rightarrow> byte list" where
  "bufSlice buf offset len =
     (let off = min (int (length buf)) offset;
          l = (if len < 0 then int (length buf) else len);
          l = min l (int (length buf) - off)
      in take (nat l) (drop (nat off) buf))"

text \<open>
  The loop of \<open>show\<close> that looks for spaces. \<open>stringArray\<close> is written at index
  \<open>numberOfStrings\<close>, which is then increased, so the array is the list of the strings
  stored so far and the store is an append.
\<close>

function wrapLoop :: "string \<Rightarrow> nat \<Rightarrow> nat \<Rightarrow> nat \<Rightarrow> string list \<Rightarrow> string list" where
  "wrapLoop inputString spaceFinder previousSpacePoint startOfString stringArray =
     (if spaceFinder \<le> length inputString then
        (if charAt inputString spaceFinder = '' '' then
           (let spacePoint = spaceFinder in
            if int spacePoint - int startOfString < NUMBER_OF_CHAR_PER_LINE then
              wrapLoop inputString (spaceFinder + 1) spacePoint startOfString
                (if int spaceFinder = int (length inputString) - 1
                 then stringArray @ [substr inputString startOfString spacePoint]
                 else stringArray)
            else if int spacePoint - int startOfString > NUMBER_OF_CHAR_PER_LINE then
              wrapLoop inputString (spaceFinder + 1) previousSpacePoint (previousSpacePoint + 1)
                (stringArray @ [substr inputString startOfString previousSpacePoint])
            else if int spacePoint - int startOfString = NUMBER_OF_CHAR_PER_LINE then
              wrapLoop inputString (spaceFinder + 1) spacePoint (spacePoint + 1)
                (stringArray @ [substr inputString startOfString spacePoint])
            else
              wrapLoop inputString (spaceFinder + 1) previousSpacePoint startOfString stringArray)
         else
           wrapLoop inputString (spaceFinder + 1) previousSpacePoint startOfString stringArray)
      else stringArray)"
  by pat_completeness auto
termination
  by (relation "measure (\<lambda>(inputString, spaceFinder, _). Suc (length inputString) - spaceFinder)")
    auto

text \<open>The block of \<open>show\<close> headed "Sort text into lines", for the row index \<open>y\<close>.\<close>

definition splitLines :: "string \<Rightarrow> int \<Rightarrow> string list" where
  "splitLines inputString y =
     (if int (length inputString) > NUMBER_OF_CHAR_PER_LINE then
        (if y = 7 then [substr inputString 0 (nat (NUMBER_OF_CHAR_PER_LINE - 1))]
         else wrapLoop inputString 0 0 0 [])
      else [inputString])"

text \<open>The start column of a line, in character cells; \<open>x\<close> is the value left by the line before.\<close>

definition alignX :: "string \<Rightarrow> ShowAlign \<Rightarrow> string \<Rightarrow> int \<Rightarrow> int \<Rightarrow> int" where
  "alignX inputString displayShowAlign displayString textLine x =
     (if int (length inputString) < NUMBER_OF_CHAR_PER_LINE - 1 then
        (case displayShowAlign of
           Left \<Rightarrow> 0
         | Centre \<Rightarrow>
             mathRound (of_int (NUMBER_OF_CHAR_PER_LINE - int (length displayString)) / 2)
         | Right \<Rightarrow> (NUMBER_OF_CHAR_PER_LINE - int (length displayString) - 1) + textLine)
      else x)"

text \<open>One column byte of a glyph: the loop over \<open>l\<close>.\<close>

definition glyphColumn :: "int \<Rightarrow> int \<Rightarrow> int" where
  "glyphColumn charDisplayBytes k =
     fold (\<lambda>l col. if charDisplayBytes AND shl1 (5 * k + l) \<noteq> 0 then col OR shl1 (l + 1) else col)
       [0..4] 0"

text \<open>The loop over \<open>k\<close>: the five columns of one character; \<open>ind\<close> is carried along.\<close>

definition drawGlyph :: "int \<Rightarrow> int \<Rightarrow> int \<Rightarrow> int \<Rightarrow> int \<times> byte list \<Rightarrow> int \<times> byte list" where
  "drawGlyph x y charOfString charDisplayBytes =
     fold (\<lambda>k (ind, buf).
             (let col = glyphColumn charDisplayBytes k;
                  ind = (x + charOfString) * 5 + y * 128 + k + 1
              in (ind, setByte buf ind col)))
       [0..4]"

text \<open>The loop over the characters of a line, from \<open>charOfString\<close> on.\<close>

fun drawString :: "int \<Rightarrow> int \<Rightarrow> int \<Rightarrow> string \<Rightarrow> int \<times> byte list \<Rightarrow> int \<times> byte list" where
  "drawString x y charOfString [] st = st"
| "drawString x y charOfString (c # cs) st =
     drawString x y (charOfString + 1) cs (drawGlyph x y charOfString (font (of_char c)) st)"

text \<open>The five bytes the rasterizer stores for a character, left column first.\<close>

definition glyphBytes :: "char \<Rightarrow> byte list" where
  "glyphBytes c = map (\<lambda>k. word_of_int (glyphColumn (font (of_char c)) k)) [0..4]"

text \<open>
  One turn of the loop over the lines, in two parts: the alignment block gives the start
  column, and \<open>renderLine\<close> rasterizes the characters from that column, positions the
  cursor and sends the bytes. The variables \<open>x\<close>, \<open>y\<close> and \<open>ind\<close> live outside the
  loop and are passed from one line to the next.
\<close>

definition renderLine ::
  "string \<Rightarrow> int \<times> int \<times> int \<Rightarrow> display \<Rightarrow> (int \<times> int \<times> int) \<times> display" where
  "renderLine displayString xyi s =
     (case xyi of (x, y, ind) \<Rightarrow>
       (let (ind, buf) = drawString x y 0 displayString (ind, screenBuf s);
            s = s\<lparr>screenBuf := buf\<rparr>;
            s = set_pos (x * 5) y s;
            ind02 = x * 5 + y * 128;
            buf2 = bufSlice (screenBuf s) ind02 (ind + 1);
            buf2 = setByte buf2 0 0x40;
            s = i2cWriteBuffer buf2 s
        in ((x, y + 1, ind), s)))"

definition showLine ::
  "string \<Rightarrow> ShowAlign \<Rightarrow> string \<Rightarrow> int \<Rightarrow> int \<times> int \<times> int \<Rightarrow> display
     \<Rightarrow> (int \<times> int \<times> int) \<times> display" where
  "showLine inputString displayShowAlign displayString textLine xyi s =
     (case xyi of (x, y, ind) \<Rightarrow>
        renderLine displayString
          (alignX inputString displayShowAlign displayString textLine x, y, ind) s)"

fun showLoop ::
  "string \<Rightarrow> ShowAlign \<Rightarrow> string list \<Rightarrow> int \<Rightarrow> int \<times> int \<times> int \<Rightarrow> display \<Rightarrow> display" where
  "showLoop inputString displayShowAlign [] textLine xyi s = s"
| "showLoop inputString displayShowAlign (displayString # rest) textLine xyi s =
     (case showLine inputString displayShowAlign displayString textLine xyi s of
        (xyi', s') \<Rightarrow> showLoop inputString displayShowAlign rest (textLine + 1) xyi' s')"

text \<open>The row index for the optional line number: a missing line and line 0 give row 0.\<close>

definition showRow :: "int option \<Rightarrow> int" where
  "showRow line = (case line of None \<Rightarrow> 0 | Some l \<Rightarrow> if l = 0 then 0 else l - 1)"

text \<open>\<open>inputData\<close> is the text \<open>convertToText\<close> returns.\<close>

definition "show" ::
  "(int \<Rightarrow> bool) \<Rightarrow> string \<Rightarrow> int option \<Rightarrow> ShowAlign option \<Rightarrow> int option \<Rightarrow> display \<Rightarrow> display" where
  "show dev inputData line displayShowAlign screen s =
     (let inputString = inputData @ '' '';
          s = s\<lparr>displayAddress := setScreenAddr screen\<rparr>;
          s = (if initialised s = 0 then initDisplay dev (Some 1) s else s);
          displayShowAlign = (case displayShowAlign of None \<Rightarrow> Left | Some a \<Rightarrow> a);
          y = showRow line;
          stringArray = splitLines inputString y
      in showLoop inputString displayShowAlign stringArray 0 (0, y, 0) s)"

definition clearLine :: "(int \<Rightarrow> bool) \<Rightarrow> int \<Rightarrow> int option \<Rightarrow> display \<Rightarrow> display" where
  "clearLine dev line screen s =
     (let s = s\<lparr>displayAddress := setScreenAddr screen\<rparr>;
          s = (if initialised s = 0 then initDisplay dev (Some 1) s else s)
      in show dev (replicate 26 (CHR '' '')) (Some line) None None s)"

section \<open>Shape primitives\<close>

datatype LineDirectionSelection = horizontal | vertical

text \<open>The two loops of \<open>drawLine\<close>, from the current pixel up to the limit \<open>x + len\<close> or \<open>y + len\<close>.\<close>

function hLineLoop ::
  "(int \<Rightarrow> bool) \<Rightarrow> int \<Rightarrow> int \<Rightarrow> int \<Rightarrow> int option \<Rightarrow> display \<Rightarrow> display" where
  "hLineLoop dev hPixel stop y screen s =
     (if hPixel < stop then hLineLoop dev (hPixel + 1) stop y screen (setPixel dev hPixel y screen s)
      else s)"
  by pat_completeness auto
termination
  by (relation "measure (\<lambda>(dev, hPixel, stop, _). nat (stop - hPixel))") auto

function vLineLoop ::
  "(int \<Rightarrow> bool) \<Rightarrow> int \<Rightarrow> int \<Rightarrow> int \<Rightarrow> int option \<Rightarrow> display \<Rightarrow> display" where
  "vLineLoop dev vPixel stop x screen s =
     (if vPixel < stop then vLineLoop dev (vPixel + 1) stop x screen (setPixel dev x vPixel screen s)
      else s)"
  by pat_completeness auto
termination
  by (relation "measure (\<lambda>(dev, vPixel, stop, _). nat (stop - vPixel))") auto

definition drawLine ::
  "(int \<Rightarrow> bool) \<Rightarrow> LineDirectionSelection \<Rightarrow> int \<Rightarrow> int \<Rightarrow> int \<Rightarrow> int option \<Rightarrow> display
     \<Rightarrow> display" where
  "drawLine dev lineDirection len x y screen s =
     (case lineDirection of
        horizontal \<Rightarrow> hLineLoop dev x (x + len) y screen s
      | vertical \<Rightarrow>
          (let len = (if len \<ge> 64 then 63 else len)
           in vLineLoop dev y (y + len) x screen s))"

text \<open>
  \<open>drawRect\<close> replaces a missing or zero \<open>x\<close> or \<open>y\<close> by 0, which changes nothing for
  an integer argument.
\<close>

definition drawRect ::
  "(int \<Rightarrow> bool) \<Rightarrow> int \<Rightarrow> int \<Rightarrow> int \<Rightarrow> int \<Rightarrow> int option \<Rightarrow> display \<Rightarrow> display" where
  "drawRect dev width height x y screen s =
     (let x = (if x = 0 then 0 else x);
          y = (if y = 0 then 0 else y);
          s = drawLine dev horizontal width x y screen s;
          s = drawLine dev horizontal width x ((y + height) - 1) screen s;
          s = drawLine dev vertical height x y screen s
      in drawLine dev vertical height ((x + width) - 1) y screen s)"

section \<open>Panel control\<close>

definition controlDisplayOnOff :: "(int \<Rightarrow> bool) \<Rightarrow> bool \<Rightarrow> int option \<Rightarrow> display \<Rightarrow> display" where
  "controlDisplayOnOff dev displayOutput screen s =
     (let s = s\<lparr>displayAddress := setScreenAddr screen\<rparr>;
          s = (if initialised s = 0 then initDisplay dev (Some 1) s else s)
      in if displayOutput then writeOneByte 0xAF s else writeOneByte 0xAE s)"

definition refresh :: "(int \<Rightarrow> bool) \<Rightarrow> int option \<Rightarrow> display \<Rightarrow> display" where
  "refresh dev screen s =
     (let s = s\<lparr>displayAddress := setScreenAddr screen\<rparr>;
          s = (if initialised s = 0 then initDisplay dev (Some 1) s else s);
          s = set_pos 0 0 s
      in i2cWriteBuffer (screenBuf s) s)"

definition invert :: "(int \<Rightarrow> bool) \<Rightarrow> bool \<Rightarrow> int option \<Rightarrow> display \<Rightarrow> display" where
  "invert dev output screen s =
     (let s = s\<lparr>displayAddress := setScreenAddr screen\<rparr>;
          s = (if initialised s = 0 then initDisplay dev (Some 1) s else s);
          invertRegisterValue = (if output then 0xA7 else 0xA6)
      in writeOneByte invertRegisterValue s)"

section \<open>Graph plotter\<close>

text \<open>
  Modelled from the spec: \<open>pins.map\<close>, the platform's range mapping, which is not part of
  the source file. The spec calls it a linear interpolation from [min, max] to the pixel
  rows; it is taken as the platform computes it,
  \<open>(value - fromLow) * (toHigh - toLow) / (fromHigh - fromLow) + toLow\<close>, every operation
  on doubles.
\<close>

definition pinsMap :: "number \<Rightarrow> number \<Rightarrow> number \<Rightarrow> number \<Rightarrow> number \<Rightarrow> number" where
  "pinsMap v fromLow fromHigh toLow toHigh =
     nadd (ndiv (nmul (nsub v fromLow) (nsub toHigh toLow)) (nsub fromHigh fromLow)) toLow"

text \<open>
  Where the segment of a column starts and how long it is. A comparison with NaN is false,
  so a NaN on either side takes the last branch.
\<close>

definition plotSegment :: "number \<Rightarrow> number \<Rightarrow> number \<times> number" where
  "plotSegment previous yPlot =
     (if nlt yPlot previous then (yPlot, nsub previous yPlot)
      else if ngt yPlot previous then (previous, nsub yPlot previous)
      else (yPlot, Finite 1))"

text \<open>"Clear plots in screenBuffer": the loop over the rows from \<open>pixel\<close> to the bottom row.\<close>

function clearLoop :: "int \<Rightarrow> int \<Rightarrow> byte list \<Rightarrow> byte list" where
  "clearLoop x3 pixel buf =
     (if pixel \<le> GRAPH_Y_MIN_LOCATION then
        (let page3 = shr pixel 3;
             shift_page3 = jsRem pixel 8;
             ind5 = x3 + page3 * 128 + 1;
             screenPixel3 = clearBit (getByte buf ind5) shift_page3
         in clearLoop x3 (pixel + 1) (setByte buf ind5 screenPixel3))
      else buf)"
  by pat_completeness auto
termination
  by (relation "measure (\<lambda>(x3, pixel, buf). nat (GRAPH_Y_MIN_LOCATION + 1 - pixel))") auto

text \<open>
  One turn of the loop headed "Plot new data in screenBuffer": the byte written for the row
  counter \<open>pixel\<close>. The row counter is a double; the shift \<open>pixel >> 3\<close> and the shift
  count \<open>pixel % 8\<close> of \<open>1 << shift_page4\<close> use its integer part.
\<close>

definition drawPixel :: "int \<Rightarrow> number \<Rightarrow> byte list \<Rightarrow> byte list" where
  "drawPixel x3 pixel buf =
     (let page3 = shr (numTrunc pixel) 3;
          shift_page4 = numRem pixel 8;
          ind6 = x3 + page3 * 128 + 1;
          screenPixel4 = getByte buf ind6 OR shl1 (numTrunc shift_page4)
      in setByte buf ind6 screenPixel4)"

text \<open>
  The loop itself, from \<open>pixel\<close> while it is below \<open>stop = y3 + len\<close>, the counter
  increased by \<open>pixel++\<close>. On doubles the increment need not change a counter of large
  magnitude, and the loop then does not end: the result is \<open>None\<close> when the loop does not
  return.
\<close>

partial_function (option) drawLoop :: "int \<Rightarrow> number \<Rightarrow> number \<Rightarrow> byte list \<Rightarrow> byte list option" where
  "drawLoop x3 pixel stop buf =
     (if nlt pixel stop
      then drawLoop x3 (nadd pixel (Finite 1)) stop (drawPixel x3 pixel buf)
      else Some buf)"

declare drawLoop.simps [code]

text \<open>
  One turn of the loop of \<open>plot\<close> over the array positions. Reading \<open>plotArray\<close> past its
  end gives \<open>undefined\<close>, which the arithmetic of the mapping turns into NaN.
\<close>

definition plotColumn :: "nat \<Rightarrow> display \<Rightarrow> display option" where
  "plotColumn arrayPosition s =
     (let x3 = int arrayPosition;
          yPlot = (if arrayPosition < length (plotArray s)
                   then pinsMap (plotArray s ! arrayPosition) (graphYMin s) (graphYMax s)
                          (Finite (of_int GRAPH_Y_MIN_LOCATION)) (Finite (of_int GRAPH_Y_MAX_LOCATION))
                   else NaN);
          s = (if arrayPosition = 0 then s\<lparr>previousYPlot := yPlot\<rparr> else s);
          (y3, len) = plotSegment (previousYPlot s) yPlot;
          buf = clearLoop x3 GRAPH_Y_MAX_LOCATION (screenBuf s)
      in case drawLoop x3 y3 (nadd y3 len) buf of
           None \<Rightarrow> None
         | Some buf \<Rightarrow> Some (s\<lparr>screenBuf := buf, previousYPlot := yPlot\<rparr>))"

function plotLoop :: "nat \<Rightarrow> nat \<Rightarrow> display \<Rightarrow> display option" where
  "plotLoop arrayPosition plotLength s =
     (if arrayPosition \<le> plotLength
      then (case plotColumn arrayPosition s of
              None \<Rightarrow> None
            | Some s \<Rightarrow> plotLoop (arrayPosition + 1) plotLength s)
      else Some s)"
  by pat_completeness auto
termination
  by (relation "measure (\<lambda>(arrayPosition, plotLength, s). Suc plotLength - arrayPosition)") auto

definition plot :: "(int \<Rightarrow> bool) \<Rightarrow> number \<Rightarrow> int option \<Rightarrow> display \<Rightarrow> display option" where
  "plot dev plotVariable screen s =
     (let s = s\<lparr>displayAddress := setScreenAddr screen\<rparr>;
          s = (if initialised s = 0 then initDisplay dev (Some 1) s else s);
          plotLength = length (plotArray s);
          s = (if plotLength = 127 then s\<lparr>plotArray := tl (plotArray s)\<rparr> else s);
          plotVariable = numRound plotVariable;
          s = s\<lparr>plotArray := plotArray s @ [plotVariable]\<rparr>;
          s = (if ngt plotVariable (graphYMax s) then s\<lparr>graphYMax := plotVariable\<rparr> else s);
          s = (if nlt plotVariable (graphYMin s) then s\<lparr>graphYMin := plotVariable\<rparr> else s)
      in case plotLoop 0 plotLength s of
           None \<Rightarrow> None
         | Some s \<Rightarrow> Some (refresh dev None s))"

text \<open>A run of \<open>plot\<close> calls, one for each value, in order.\<close>

fun plots :: "(int \<Rightarrow> bool) \<Rightarrow> number list \<Rightarrow> display \<Rightarrow> display option" where
  "plots dev [] s = Some s"
| "plots dev (v # vs) s =
     (case plot dev v None s of None \<Rightarrow> None | Some s \<Rightarrow> plots dev vs s)"

section \<open>The public display calls\<close>

datatype call =
    InitDisplay "int option"
  | SetPixel int int "int option"
  | ClearPixel int int "int option"
  | Show string "int option" "ShowAlign option" "int option"
  | ClearLine int "int option"
  | DrawLine LineDirectionSelection int int int "int option"
  | DrawRect int int int int "int option"
  | Clear "int option"
  | ControlDisplayOnOff bool "int option"
  | Plot number "int option"
  | Refresh "int option"
  | Invert bool "int option"

text \<open>One public call; \<open>None\<close> when the call does not return.\<close>

fun run :: "(int \<Rightarrow> bool) \<Rightarrow> call \<Rightarrow> display \<Rightarrow> display option" where
  "run dev (InitDisplay screen) s = Some (initDisplay dev screen s)"
| "run dev (SetPixel x y screen) s = Some (setPixel dev x y screen s)"
| "run dev (ClearPixel x y screen) s = Some (clearPixel dev x y screen s)"
| "run dev (Show inputData line displayShowAlign screen) s =
     Some (show dev inputData line displayShowAlign screen s)"
| "run dev (ClearLine line screen) s = Some (clearLine dev line screen s)"
| "run dev (DrawLine lineDirection len x y screen) s =
     Some (drawLine dev lineDirection len x y screen s)"
| "run dev (DrawRect width height x y screen) s = Some (drawRect dev width height x y screen s)"
| "run dev (Clear screen) s = Some (clear dev screen s)"
| "run dev (ControlDisplayOnOff displayOutput screen) s =
     Some (controlDisplayOnOff dev displayOutput screen s)"
| "run dev (Plot plotVariable screen) s = plot dev plotVariable screen s"
| "run dev (Refresh screen) s = Some (refresh dev screen s)"
| "run dev (Invert output screen) s = Some (invert dev output screen s)"

text \<open>A sequence of public calls, run in order.\<close>

fun runs :: "(int \<Rightarrow> bool) \<Rightarrow> call list \<Rightarrow> display \<Rightarrow> display option" where
  "runs dev [] s = Some s"
| "runs dev (c # cs) s = (case run dev c s of None \<Rightarrow> None | Some s \<Rightarrow> runs dev cs s)"

text \<open>
  The bus writes of the controller configuration in \<open>initDisplay\<close>, for the address they
  are sent to.
\<close>

definition initSequence :: "int \<Rightarrow> (int \<times> byte list) list" where
  "initSequence a = bus (initCommands (initial_display\<lparr>displayAddress := a\<rparr>))"

text \<open>
  A write of three or four bytes that starts with the command marker 0: the shape of what
  \<open>writeTwoByte\<close> and \<open>writeThreeByte\<close> send, which only the configuration uses.
\<close>

definition multiByteCommand :: "int \<times> byte list \<Rightarrow> bool" where
  "multiByteCommand w =
     (case snd w of b # _ # _ # rest \<Rightarrow> b = 0 \<and> length rest \<le> 1 | _ \<Rightarrow> False)"

text \<open>
  A step that keeps the flag and the size of the frame buffer and only adds bus writes that
  are no multi-byte commands.
\<close>

definition quietStep :: "display \<Rightarrow> display \<Rightarrow> bool" where
  "quietStep s s' =
     (initialised s' = initialised s \<and> length (screenBuf s') = length (screenBuf s)
      \<and> (\<exists>ws. bus s' = bus s @ ws \<and> list_all (\<lambda>w. \<not> multiByteCommand w) ws))"

text \<open>Pixel \<open>(x, y)\<close> of a frame buffer: bit \<open>y mod 8\<close> of the byte at \<open>x + (y >> 3) * 128 + 1\<close>.\<close>

definition pixelOn :: "byte list \<Rightarrow> int \<Rightarrow> int \<Rightarrow> bool" where
  "pixelOn buf x y = bit (getByte buf (x + (y div 8) * 128 + 1)) (nat (y mod 8))"

section \<open>Notions for stating the effects\<close>

text \<open>
  Rendering a list of lines, each at a given start column (in character cells), on
  successive rows from row \<open>y\<close>: what \<open>show\<close> is compared with. Each line goes through
  \<open>renderLine\<close>, which rasterizes it and sends it; \<open>ind\<close> is the buffer index it carries
  from line to line.
\<close>

fun renderAtColumns :: "(string \<times> int) list \<Rightarrow> int \<Rightarrow> int \<Rightarrow> display \<Rightarrow> display" where
  "renderAtColumns [] y ind s = s"
| "renderAtColumns ((displayString, x) # rest) y ind s =
     (case renderLine displayString (x, y, ind) s of
        ((x', y', ind'), s') \<Rightarrow> renderAtColumns rest y' ind' s')"

text \<open>\<open>a \<le> b\<close> on doubles: false when either side is NaN.\<close>

definition nle :: "number \<Rightarrow> number \<Rightarrow> bool" where
  "nle a b = (a \<noteq> NaN \<and> b \<noteq> NaN \<and> \<not> nlt b a)"

text \<open>
  The mapped row of the sample at an array position, as the loop of \<open>plot\<close> computes it:
  the array read followed by the range mapping; NaN past the end of the array.
\<close>

definition sampleRow :: "display \<Rightarrow> nat \<Rightarrow> number" where
  "sampleRow s arrayPosition =
     (if arrayPosition < length (plotArray s)
      then pinsMap (plotArray s ! arrayPosition) (graphYMin s) (graphYMax s)
             (Finite (of_int GRAPH_Y_MIN_LOCATION)) (Finite (of_int GRAPH_Y_MAX_LOCATION))
      else NaN)"

text \<open>
  The rows the drawing loop visits from the finite counter value \<open>pixel\<close> while the counter
  is below the finite bound \<open>stop\<close>: the integer part of the counter at each turn, the
  counter increased by 1 in double arithmetic. At most \<open>n\<close> turns are followed.
\<close>

fun visitedRows :: "nat \<Rightarrow> rat \<Rightarrow> rat \<Rightarrow> int list" where
  "visitedRows 0 pixel stop = []"
| "visitedRows (Suc n) pixel stop =
     (if pixel < stop then \<lfloor>pixel\<rfloor> # visitedRows n (roundToDouble (pixel + 1)) stop else [])"

text \<open>
  Whether row \<open>y\<close> is one of the rows of the segment that \<open>plotSegment\<close> gives for a
  previous and a current mapped row. Between rows 16 and 64 the counter advances by more
  than a half at each turn, so 128 turns cover every segment there. A start that is not
  finite gives no row.
\<close>

definition segmentOn :: "number \<Rightarrow> number \<Rightarrow> int \<Rightarrow> bool" where
  "segmentOn previous yPlot y =
     (case plotSegment previous yPlot of
        (Finite y3, len) \<Rightarrow>
          (case nadd (Finite y3) len of
             Finite stop \<Rightarrow> y \<in> set (visitedRows 128 y3 stop)
           | _ \<Rightarrow> False)
      | _ \<Rightarrow> False)"

text \<open>
  A mapped row as the range mapping gives it for a sample inside the scale: NaN, the
  negative infinity (when the product in the mapping overflows), or a finite row from 16 to
  63.
\<close>

definition inBand :: "number \<Rightarrow> bool" where
  "inBand r = (case r of Finite v \<Rightarrow> 16 \<le> v \<and> v \<le> 63 | PosInf \<Rightarrow> False | _ \<Rightarrow> True)"

text \<open>
  The plot state every program reaches: the frame buffer has its 1025 bytes, the sample
  array at most 127 entries, the bounds contain their initial values 0 and 100, and every
  sample is NaN or lies between the bounds.
\<close>

definition plotReady :: "display \<Rightarrow> bool" where
  "plotReady s =
     (length (screenBuf s) = 1025 \<and> length (plotArray s) \<le> 127
      \<and> nle (graphYMin s) (Finite 0) \<and> nle (Finite 100) (graphYMax s)
      \<and> list_all (\<lambda>v. v = NaN \<or> (nle (graphYMin s) v \<and> nle v (graphYMax s))) (plotArray s))"

text \<open>Two states with the same plot variables and the same frame-buffer size.\<close>

definition samePlot :: "display \<Rightarrow> display \<Rightarrow> bool" where
  "samePlot s s' =
     (length (screenBuf s') = length (screenBuf s) \<and> plotArray s' = plotArray s
      \<and> graphYMin s' = graphYMin s \<and> graphYMax s' = graphYMax s)"

text \<open>The state of \<open>plot\<close> when its drawing loop starts: everything before the loop.\<close>

definition plotRecorded :: "(int \<Rightarrow> bool) \<Rightarrow> number \<Rightarrow> int option \<Rightarrow> display \<Rightarrow> display" where
  "plotRecorded dev plotVariable screen s =
     (let s = s\<lparr>displayAddress := setScreenAddr screen\<rparr>;
          s = (if initialised s = 0 then initDisplay dev (Some 1) s else s);
          plotLength = length (plotArray s);
          s = (if plotLength = 127 then s\<lparr>plotArray := tl (plotArray s)\<rparr> else s);
          plotVariable = numRound plotVariable;
          s = s\<lparr>plotArray := plotArray s @ [plotVariable]\<rparr>;
          s = (if ngt plotVariable (graphYMax s) then s\<lparr>graphYMax := plotVariable\<rparr> else s)
      in (if nlt plotVariable (graphYMin s) then s\<lparr>graphYMin := plotVariable\<rparr> else s))"

section \<open>Rounding to a double\<close>

lemma floor_rat_numeral_div [simp]:
  "\<lfloor>numeral a / numeral b :: rat\<rfloor> = numeral a div numeral b"
  using floor_divide_of_int_eq [of "numeral a" "numeral b", where ?'a = rat] by simp

lemma floor_rat_minus_numeral_div [simp]:
  "\<lfloor>- (numeral a / numeral b) :: rat\<rfloor> = - numeral a div numeral b"
  using floor_divide_of_int_eq [of "- numeral a" "numeral b", where ?'a = rat] by simp

lemma roundHalfEven_of_int [simp]: "roundHalfEven (of_int n) = n"
  by (simp add: roundHalfEven_def)

lemma roundHalfEven_numeral [simp]: "roundHalfEven (numeral k) = numeral k"
  using roundHalfEven_of_int [of "numeral k"] by simp

lemma roundHalfEven_0 [simp]: "roundHalfEven 0 = 0"
  using roundHalfEven_of_int [of 0] by simp

lemma roundHalfEven_1 [simp]: "roundHalfEven 1 = 1"
  using roundHalfEven_of_int [of 1] by simp

lemma roundHalfEven_bounds: "\<lfloor>q\<rfloor> \<le> roundHalfEven q \<and> roundHalfEven q \<le> \<lfloor>q\<rfloor> + 1"
  by (simp add: roundHalfEven_def Let_def)

lemma roundHalfEven_error: "\<bar>of_int (roundHalfEven q) - q\<bar> \<le> 1 / 2"
proof -
  define f where "f = \<lfloor>q\<rfloor>"
  have b: "of_int f \<le> q" "q < of_int f + 1" unfolding f_def by linarith+
  have r: "roundHalfEven q =
      (if q - of_int f < 1 / 2 then f else if 1 / 2 < q - of_int f then f + 1
       else if even f then f else f + 1)"
    by (simp add: roundHalfEven_def Let_def f_def)
  show ?thesis unfolding r using b by (auto simp: abs_if)
qed

lemma roundHalfEven_mono:
  assumes "q \<le> q'"
  shows "roundHalfEven q \<le> roundHalfEven q'"
proof (cases "\<lfloor>q\<rfloor> = \<lfloor>q'\<rfloor>")
  case True
  then show ?thesis using assms by (auto simp: roundHalfEven_def Let_def)
next
  case False
  then have "\<lfloor>q\<rfloor> + 1 \<le> \<lfloor>q'\<rfloor>" using floor_mono [OF assms] by linarith
  then show ?thesis
    using roundHalfEven_bounds [of q] roundHalfEven_bounds [of q'] by linarith
qed

lemma roundHalfEven_minus: "roundHalfEven (- q) = - roundHalfEven q"
proof (cases "q = of_int \<lfloor>q\<rfloor>")
  case True
  then obtain n where q: "q = of_int n" by blast
  have "roundHalfEven (of_int (- n)) = - n" by (rule roundHalfEven_of_int)
  then show ?thesis unfolding q by simp
next
  case False
  have b: "of_int \<lfloor>q\<rfloor> < q" "q < of_int \<lfloor>q\<rfloor> + 1" using False by linarith+
  have f: "\<lfloor>- q\<rfloor> = - \<lfloor>q\<rfloor> - 1" using b by (intro floor_unique) simp_all
  show ?thesis
    unfolding roundHalfEven_def Let_def f using b by (auto simp: algebra_simps)
qed

lemma finite_exponents [simp]:
  "finite (insert (- 1022) (Set.filter P {- 1022 .. 1023 :: int}))"
proof -
  have "Set.filter P {- 1022 .. 1023 :: int} \<subseteq> {- 1022 .. 1023}" by auto
  then have "finite (Set.filter P {- 1022 .. 1023 :: int})" by (rule finite_subset) simp
  then show ?thesis by (rule finite.insertI)
qed

lemma exponent_range: "- 1022 \<le> exponent y" "exponent y \<le> 1023"
proof -
  let ?S = "insert (- 1022) (Set.filter (\<lambda>e. 2 powi e \<le> y) {- 1022 .. 1023})"
  have f: "finite ?S" by (rule finite_exponents)
  have "Max ?S \<in> ?S" by (rule Max_in [OF f]) simp
  then show "exponent y \<le> 1023" by (auto simp: exponent_def)
  show "- 1022 \<le> exponent y" unfolding exponent_def by (rule Max_ge [OF f]) simp
qed

lemma exponent_le:
  assumes "2 powi (- 1022) \<le> y"
  shows "2 powi (exponent y) \<le> y"
proof -
  let ?S = "insert (- 1022) (Set.filter (\<lambda>e. 2 powi e \<le> y) {- 1022 .. 1023})"
  have "Max ?S \<in> ?S" by (rule Max_in [OF finite_exponents]) simp
  then show ?thesis using assms by (auto simp: exponent_def)
qed

lemma exponent_ge:
  assumes "- 1022 \<le> e" "e \<le> 1023" "2 powi e \<le> y"
  shows "e \<le> exponent y"
  unfolding exponent_def by (rule Max_ge [OF finite_exponents]) (use assms in simp)

lemma exponent_gt:
  assumes "y < 2 powi 1024"
  shows "y < 2 powi (exponent y + 1)"
proof (cases "exponent y = 1023")
  case True
  then show ?thesis using assms by simp
next
  case False
  then have r: "- 1022 \<le> exponent y + 1" "exponent y + 1 \<le> 1023"
    using exponent_range [of y] by simp_all
  show ?thesis
  proof (rule ccontr)
    assume "\<not> y < 2 powi (exponent y + 1)"
    then have "2 powi (exponent y + 1) \<le> y" by simp
    from exponent_ge [OF r this] show False by simp
  qed
qed

lemma exponent_mono:
  assumes "y \<le> z"
  shows "exponent y \<le> exponent z"
proof -
  let ?S = "insert (- 1022) (Set.filter (\<lambda>e. 2 powi e \<le> y) {- 1022 .. 1023})"
  let ?T = "insert (- 1022) (Set.filter (\<lambda>e. 2 powi e \<le> z) {- 1022 .. 1023})"
  have "?S \<subseteq> ?T" using assms by auto
  then show ?thesis unfolding exponent_def by (rule Max_mono [OF _ _ finite_exponents]) simp
qed

lemma exponent_small:
  assumes "y < 2 powi (- 1022)"
  shows "exponent y = - 1022"
proof (rule ccontr)
  assume a: "exponent y \<noteq> - 1022"
  let ?S = "insert (- 1022) (Set.filter (\<lambda>e. 2 powi e \<le> y) {- 1022 .. 1023})"
  have "Max ?S \<in> ?S" by (rule Max_in [OF finite_exponents]) simp
  with a have le: "2 powi (exponent y) \<le> y" by (auto simp: exponent_def)
  have "(2::rat) powi (- 1022) \<le> 2 powi (exponent y)"
    by (rule power_int_increasing) (use exponent_range [of y] in simp_all)
  with le assms show False by linarith
qed

lemma roundToDouble_alt:
  "roundToDouble x =
     of_int (roundHalfEven (x / 2 powi (exponent \<bar>x\<bar> - 52))) * 2 powi (exponent \<bar>x\<bar> - 52)"
  by (simp add: roundToDouble_def Let_def)

lemma roundToDouble_exact:
  assumes "x / 2 powi (exponent \<bar>x\<bar> - 52) = of_int k"
  shows "roundToDouble x = x"
proof -
  have u: "(2::rat) powi (exponent \<bar>x\<bar> - 52) \<noteq> 0" by simp
  have "roundToDouble x = x / 2 powi (exponent \<bar>x\<bar> - 52) * 2 powi (exponent \<bar>x\<bar> - 52)"
    unfolding roundToDouble_alt assms roundHalfEven_of_int ..
  then show ?thesis using u by simp
qed

lemma roundToDouble_minus: "roundToDouble (- x) = - roundToDouble x"
  by (simp add: roundToDouble_alt roundHalfEven_minus)

lemma roundToDouble_nonneg:
  assumes "0 \<le> x"
  shows "0 \<le> roundToDouble x"
proof -
  have "0 \<le> x / 2 powi (exponent \<bar>x\<bar> - 52)" using assms by simp
  from roundHalfEven_mono [OF this] have "0 \<le> roundHalfEven (x / 2 powi (exponent \<bar>x\<bar> - 52))"
    using roundHalfEven_of_int [of 0] by simp
  then show ?thesis unfolding roundToDouble_alt by simp
qed

lemma pow2_split: "(2::rat) powi e = 2 ^ 52 * 2 powi (e - 52)"
  using power_int_add [of "2::rat" 52 "e - 52"] by simp

lemma pow2_split1: "(2::rat) powi (e + 1) = 2 ^ 53 * 2 powi (e - 52)"
  using power_int_add [of "2::rat" 53 "e - 52"] by (simp add: add.commute)

lemma roundToDouble_lower:
  assumes "2 powi (- 1022) \<le> x"
  shows "2 powi (exponent x) \<le> roundToDouble x"
proof -
  define u :: rat where "u = 2 powi (exponent x - 52)"
  have u: "0 < u" by (simp add: u_def)
  have "(0::rat) < 2 powi (- 1022)" by simp
  with assms have x: "0 < x" by linarith
  have "2 ^ 52 * u \<le> x" using exponent_le [OF assms] pow2_split [of "exponent x"] by (simp add: u_def)
  then have "of_int (2 ^ 52) \<le> x / u" using u by (simp add: pos_le_divide_eq)
  from roundHalfEven_mono [OF this] have "2 ^ 52 \<le> roundHalfEven (x / u)" by simp
  then have "(of_int (2 ^ 52) :: rat) \<le> of_int (roundHalfEven (x / u))" by (simp only: of_int_le_iff)
  then have "2 ^ 52 * u \<le> of_int (roundHalfEven (x / u)) * u" using u by simp
  then show ?thesis
    using x pow2_split [of "exponent x"] by (simp add: roundToDouble_alt u_def)
qed

lemma roundToDouble_upper:
  assumes "0 \<le> x" "x < 2 powi 1024"
  shows "roundToDouble x \<le> 2 powi (exponent x + 1)"
proof -
  define u :: rat where "u = 2 powi (exponent x - 52)"
  have u: "0 < u" by (simp add: u_def)
  have "x \<le> 2 ^ 53 * u"
    using exponent_gt [OF assms(2)] pow2_split1 [of "exponent x"] by (simp add: u_def)
  then have "x / u \<le> of_int (2 ^ 53)" using u by (simp add: pos_divide_le_eq)
  from roundHalfEven_mono [OF this] have "roundHalfEven (x / u) \<le> 2 ^ 53" by simp
  then have "(of_int (roundHalfEven (x / u)) :: rat) \<le> of_int (2 ^ 53)" by (simp only: of_int_le_iff)
  then have "of_int (roundHalfEven (x / u)) * u \<le> 2 ^ 53 * u" using u by simp
  then show ?thesis
    using assms(1) pow2_split1 [of "exponent x"] by (simp add: roundToDouble_alt u_def)
qed

lemma roundToDouble_mono_nonneg:
  assumes "0 \<le> x" "x \<le> y"
  shows "roundToDouble x \<le> roundToDouble y"
proof (cases "exponent x = exponent y")
  case True
  define u :: rat where "u = 2 powi (exponent y - 52)"
  have u: "0 < u" by (simp add: u_def)
  have "x / u \<le> y / u" using assms(2) u by (simp add: divide_right_mono)
  from roundHalfEven_mono [OF this]
  have "(of_int (roundHalfEven (x / u)) :: rat) \<le> of_int (roundHalfEven (y / u))" by simp
  then have "of_int (roundHalfEven (x / u)) * u \<le> of_int (roundHalfEven (y / u)) * u"
    using u by simp
  then show ?thesis using assms True by (simp add: roundToDouble_alt u_def)
next
  case False
  then have lt: "exponent x < exponent y" using exponent_mono [OF assms(2)] by simp
  have xs: "x < 2 powi 1024"
  proof (rule ccontr)
    assume "\<not> x < 2 powi 1024"
    then have "2 powi 1023 \<le> x"
      using power_int_increasing [of 1023 1024 "2::rat"] by simp
    from exponent_ge [OF _ _ this] have "1023 \<le> exponent x" by simp
    with lt exponent_range(2) [of y] show False by simp
  qed
  have yl: "2 powi (- 1022) \<le> y"
  proof (rule ccontr)
    assume "\<not> 2 powi (- 1022) \<le> y"
    then have "exponent y = - 1022" by (intro exponent_small) simp
    with lt exponent_range(1) [of x] show False by simp
  qed
  have "roundToDouble x \<le> 2 powi (exponent x + 1)" by (rule roundToDouble_upper [OF assms(1) xs])
  also have "\<dots> \<le> 2 powi (exponent y)" by (rule power_int_increasing) (use lt in simp_all)
  also have "\<dots> \<le> roundToDouble y" by (rule roundToDouble_lower [OF yl])
  finally show ?thesis .
qed

lemma roundToDouble_mono:
  assumes "x \<le> y"
  shows "roundToDouble x \<le> roundToDouble y"
proof (cases "0 \<le> x")
  case True
  then show ?thesis by (rule roundToDouble_mono_nonneg [OF _ assms])
next
  case False
  show ?thesis
  proof (cases "0 \<le> y")
    case True
    have "0 \<le> roundToDouble (- x)" by (rule roundToDouble_nonneg) (use False in simp)
    then have "roundToDouble x \<le> 0" by (simp add: roundToDouble_minus)
    also have "0 \<le> roundToDouble y" by (rule roundToDouble_nonneg [OF True])
    finally show ?thesis .
  next
    case False
    then have "roundToDouble (- y) \<le> roundToDouble (- x)"
      by (intro roundToDouble_mono_nonneg) (use assms in simp_all)
    then show ?thesis by (simp add: roundToDouble_minus)
  qed
qed

lemma roundToDouble_of_nat_int:
  assumes "0 \<le> n" "n \<le> 2 ^ 53"
  shows "roundToDouble (of_int n) = of_int n"
proof (cases "n = 0")
  case True
  then show ?thesis by (simp add: roundToDouble_alt)
next
  case False
  with assms(1) have n1: "1 \<le> n" by simp
  define e where "e = exponent (of_int n)"
  have "(2::rat) powi (- 1022) \<le> 2 powi 0" by (rule power_int_increasing) simp_all
  also have "\<dots> \<le> of_int n" using n1 by simp
  finally have small: "2 powi (- 1022) \<le> (of_int n :: rat)" .
  have le: "2 powi e \<le> (of_int n :: rat)" unfolding e_def by (rule exponent_le [OF small])
  have "(of_int n :: rat) \<le> of_int (2 ^ 53)" using assms(2) by (simp only: of_int_le_iff)
  then have n53: "(of_int n :: rat) \<le> 2 powi 53" by simp
  have e53: "e \<le> 53"
    by (rule power_int_le_imp_le_exp [of "2::rat"]) (use le n53 in simp_all)
  have a: "\<bar>of_int n :: rat\<bar> = of_int n" using n1 by simp
  show ?thesis
  proof (cases "e \<le> 52")
    case True
    have "(2::rat) powi (52 - e) = 2 ^ nat (52 - e)" using True by (simp add: power_int_def)
    moreover have "(2::rat) powi (e - 52) * 2 powi (52 - e) = 1"
      using power_int_add [of "2::rat" "e - 52" "52 - e"] by simp
    ultimately have "(of_int n :: rat) / 2 powi (e - 52) = of_int (n * 2 ^ nat (52 - e))"
      by (simp add: field_simps)
    then show ?thesis unfolding e_def by (intro roundToDouble_exact [of _ "n * 2 ^ nat (52 - exponent (of_int n))"]) (simp add: a)
  next
    case False
    with e53 have e: "e = 53" by simp
    have "(2::rat) powi 53 \<le> of_int n" using le e by simp
    with n53 have n: "(of_int n :: rat) = 2 ^ 53" by simp
    have "(of_int n :: rat) / 2 powi (e - 52) = of_int (2 ^ 52)" unfolding n e by simp
    then show ?thesis unfolding e_def by (intro roundToDouble_exact [of _ "2 ^ 52"]) (simp add: a)
  qed
qed

lemma roundToDouble_of_int:
  assumes "\<bar>n\<bar> \<le> 2 ^ 53"
  shows "roundToDouble (of_int n) = of_int n"
proof (cases "0 \<le> n")
  case True
  then show ?thesis using assms by (intro roundToDouble_of_nat_int) simp_all
next
  case False
  then have "roundToDouble (of_int (- n)) = of_int (- n)"
    using assms by (intro roundToDouble_of_nat_int) simp_all
  then show ?thesis by (simp add: roundToDouble_minus)
qed

lemma roundToDouble_half_ulp:
  "\<bar>roundToDouble x - x\<bar> \<le> 2 powi (exponent \<bar>x\<bar> - 52) / 2"
proof -
  define u :: rat where "u = 2 powi (exponent \<bar>x\<bar> - 52)"
  have u: "0 < u" by (simp add: u_def)
  have "roundToDouble x - x = (of_int (roundHalfEven (x / u)) - x / u) * u"
    using u by (simp add: roundToDouble_alt u_def algebra_simps)
  then have "\<bar>roundToDouble x - x\<bar> = \<bar>of_int (roundHalfEven (x / u)) - x / u\<bar> * u"
    using u by (simp add: abs_mult)
  also have "\<dots> \<le> 1 / 2 * u"
    by (rule mult_right_mono [OF roundHalfEven_error]) (use u in simp)
  finally show ?thesis by (simp add: u_def)
qed

lemma roundToDouble_error:
  "\<bar>roundToDouble x - x\<bar> \<le> \<bar>x\<bar> / 2 ^ 53 + 1 / 2 ^ 1075"
proof (cases "2 powi (- 1022) \<le> \<bar>x\<bar>")
  case True
  have "2 ^ 52 * 2 powi (exponent \<bar>x\<bar> - 52) \<le> \<bar>x\<bar>"
    using exponent_le [OF True] pow2_split [of "exponent \<bar>x\<bar>"] by simp
  then have "2 powi (exponent \<bar>x\<bar> - 52) / 2 \<le> \<bar>x\<bar> / 2 ^ 53" by simp
  with roundToDouble_half_ulp [of x] show ?thesis by simp
next
  case False
  then have e: "exponent \<bar>x\<bar> = - 1022" by (intro exponent_small) simp
  have "(2::rat) powi (- 1074) / 2 = 1 / 2 ^ 1075" by (simp add: power_int_minus field_simps)
  with roundToDouble_half_ulp [of x] have "\<bar>roundToDouble x - x\<bar> \<le> 1 / 2 ^ 1075"
    unfolding e by simp
  moreover have "0 \<le> \<bar>x\<bar> / 2 ^ 53" by simp
  ultimately show ?thesis by linarith
qed

lemma roundToDouble_near:
  "\<bar>roundToDouble x - x\<bar> \<le> \<bar>x\<bar> / 1000 + 1 / 1000"
proof -
  have "\<bar>x\<bar> / 2 ^ 53 \<le> \<bar>x\<bar> / 1000" by (rule divide_left_mono) simp_all
  moreover have "(1::rat) / 2 ^ 1075 \<le> 1 / 1000" by simp
  ultimately show ?thesis using roundToDouble_error [of x] by linarith
qed

section \<open>What the operations leave alone\<close>

declare wrapLoop.simps [simp del] hLineLoop.simps [simp del] vLineLoop.simps [simp del]
  clearLoop.simps [simp del] plotLoop.simps [simp del]

lemma length_setByte [simp]: "length (setByte buf off v) = length buf"
  by (simp add: setByte_def)

lemma i2cWriteBuffer_fields [simp]:
  "displayAddress (i2cWriteBuffer b s) = displayAddress s"
  "initialised (i2cWriteBuffer b s) = initialised s"
  "screenBuf (i2cWriteBuffer b s) = screenBuf s"
  "plotArray (i2cWriteBuffer b s) = plotArray s"
  "graphYMin (i2cWriteBuffer b s) = graphYMin s"
  "graphYMax (i2cWriteBuffer b s) = graphYMax s"
  "previousYPlot (i2cWriteBuffer b s) = previousYPlot s"
  "ledText (i2cWriteBuffer b s) = ledText s"
  "bus (i2cWriteBuffer b s) = bus s @ [(displayAddress s, b)]"
  by (simp_all add: i2cWriteBuffer_def)

lemma writeOneByte_fields [simp]:
  "displayAddress (writeOneByte v s) = displayAddress s"
  "initialised (writeOneByte v s) = initialised s"
  "screenBuf (writeOneByte v s) = screenBuf s"
  "plotArray (writeOneByte v s) = plotArray s"
  "graphYMin (writeOneByte v s) = graphYMin s"
  "graphYMax (writeOneByte v s) = graphYMax s"
  "previousYPlot (writeOneByte v s) = previousYPlot s"
  "ledText (writeOneByte v s) = ledText s"
  "bus (writeOneByte v s) = bus s @ [(displayAddress s, [0, word_of_int v])]"
  by (simp_all add: writeOneByte_def)

lemma set_pos_fields [simp]:
  "displayAddress (set_pos c p s) = displayAddress s"
  "initialised (set_pos c p s) = initialised s"
  "screenBuf (set_pos c p s) = screenBuf s"
  "plotArray (set_pos c p s) = plotArray s"
  "graphYMin (set_pos c p s) = graphYMin s"
  "graphYMax (set_pos c p s) = graphYMax s"
  "previousYPlot (set_pos c p s) = previousYPlot s"
  "ledText (set_pos c p s) = ledText s"
  by (simp_all add: set_pos_def)

lemma initCommands_fields [simp]:
  "displayAddress (initCommands s) = displayAddress s"
  "initialised (initCommands s) = initialised s"
  "screenBuf (initCommands s) = screenBuf s"
  "plotArray (initCommands s) = plotArray s"
  "graphYMin (initCommands s) = graphYMin s"
  "graphYMax (initCommands s) = graphYMax s"
  "previousYPlot (initCommands s) = previousYPlot s"
  "ledText (initCommands s) = ledText s"
  by (simp_all add: initCommands_def writeTwoByte_def writeThreeByte_def)

lemma clearScreen_fields [simp]:
  "displayAddress (clearScreen s) = displayAddress s"
  "initialised (clearScreen s) = initialised s"
  "plotArray (clearScreen s) = plotArray s"
  "graphYMin (clearScreen s) = graphYMin s"
  "graphYMax (clearScreen s) = graphYMax s"
  "previousYPlot (clearScreen s) = previousYPlot s"
  "ledText (clearScreen s) = ledText s"
  "screenBuf (clearScreen s) = setByte (replicate (length (screenBuf s)) 0) 0 0x40"
  by (simp_all add: clearScreen_def Let_def)

lemma initDisplay_fields [simp]:
  "plotArray (initDisplay dev screen s) = plotArray s"
  "graphYMin (initDisplay dev screen s) = graphYMin s"
  "graphYMax (initDisplay dev screen s) = graphYMax s"
  "previousYPlot (initDisplay dev screen s) = previousYPlot s"
  "length (screenBuf (initDisplay dev screen s)) = length (screenBuf s)"
  by (simp_all add: initDisplay_def Let_def)

lemma refresh_fields [simp]:
  "plotArray (refresh dev screen s) = plotArray s"
  "graphYMin (refresh dev screen s) = graphYMin s"
  "graphYMax (refresh dev screen s) = graphYMax s"
  "previousYPlot (refresh dev screen s) = previousYPlot s"
  "length (screenBuf (refresh dev screen s)) = length (screenBuf s)"
  by (simp_all add: refresh_def Let_def)

lemma length_clearLoop [simp]: "length (clearLoop x3 pixel buf) = length buf"
  by (induction x3 pixel buf rule: clearLoop.induct)
     (subst clearLoop.simps, simp add: Let_def)

lemma length_drawPixel [simp]: "length (drawPixel x3 pixel buf) = length buf"
  by (simp add: drawPixel_def Let_def)

lemma length_drawLoop:
  assumes "drawLoop x3 pixel stop buf = Some buf'"
  shows "length buf' = length buf"
proof (rule drawLoop.raw_induct
    [where P = "\<lambda>x3 pixel stop buf buf'. length buf' = length buf", OF _ assms])
  fix f :: "int \<Rightarrow> number \<Rightarrow> number \<Rightarrow> byte list \<Rightarrow> byte list option"
    and x3 pixel stop buf buf'
  assume IH: "\<And>x3 pixel stop buf buf'. f x3 pixel stop buf = Some buf' \<Longrightarrow> length buf' = length buf"
    and eq: "(if nlt pixel stop then f x3 (nadd pixel (Finite 1)) stop (drawPixel x3 pixel buf)
              else Some buf) = Some buf'"
  show "length buf' = length buf"
  proof (cases "nlt pixel stop")
    case True
    with eq have "f x3 (nadd pixel (Finite 1)) stop (drawPixel x3 pixel buf) = Some buf'" by simp
    from IH [OF this] show ?thesis by simp
  next
    case False
    with eq show ?thesis by simp
  qed
qed

lemma plotColumn_unfold:
  "plotColumn i s =
     (let yPlot = sampleRow s i;
          previous = (if i = 0 then yPlot else previousYPlot s);
          y3 = fst (plotSegment previous yPlot);
          len = snd (plotSegment previous yPlot)
      in map_option (\<lambda>buf. s\<lparr>screenBuf := buf, previousYPlot := yPlot\<rparr>)
           (drawLoop (int i) y3 (nadd y3 len) (clearLoop (int i) 20 (screenBuf s))))"
  by (simp add: plotColumn_def sampleRow_def Let_def GRAPH_Y_MAX_LOCATION_def
      split: prod.splits option.splits)

lemma plotColumn_fields:
  assumes "plotColumn i s = Some s'"
  shows "displayAddress s' = displayAddress s"
    "initialised s' = initialised s"
    "plotArray s' = plotArray s"
    "graphYMin s' = graphYMin s"
    "graphYMax s' = graphYMax s"
    "ledText s' = ledText s"
    "bus s' = bus s"
    "length (screenBuf s') = length (screenBuf s)"
    "previousYPlot s' = sampleRow s i"
  using assms by (auto simp: plotColumn_unfold Let_def dest: length_drawLoop)

lemma plotLoop_fields:
  "plotLoop i n s = Some s' \<Longrightarrow>
     displayAddress s' = displayAddress s \<and> initialised s' = initialised s
   \<and> plotArray s' = plotArray s \<and> graphYMin s' = graphYMin s \<and> graphYMax s' = graphYMax s
   \<and> ledText s' = ledText s \<and> bus s' = bus s
   \<and> length (screenBuf s') = length (screenBuf s)"
proof (induction i n s rule: plotLoop.induct)
  case (1 a n s)
  show ?case
  proof (cases "a \<le> n")
    case True
    from "1.prems" True obtain s1 where c: "plotColumn a s = Some s1"
      and l: "plotLoop (a + 1) n s1 = Some s'"
      by (subst (asm) plotLoop.simps) (auto split: option.splits)
    from "1.IH" [OF True c l] plotColumn_fields [OF c] show ?thesis by simp
  next
    case False
    with "1.prems" show ?thesis by (subst (asm) plotLoop.simps) simp
  qed
qed

lemma plot_by_parts:
  "plot dev v screen s =
     map_option (refresh dev None) (plotLoop 0 (length (plotArray s)) (plotRecorded dev v screen s))"
  by (simp add: plot_def plotRecorded_def Let_def map_option_case)

lemma plotRecorded_fields:
  "plotArray (plotRecorded dev v screen s) =
     (if length (plotArray s) = 127 then tl (plotArray s) else plotArray s) @ [numRound v]"
  "graphYMin (plotRecorded dev v screen s) =
     (if nlt (numRound v) (graphYMin s) then numRound v else graphYMin s)"
  "graphYMax (plotRecorded dev v screen s) =
     (if ngt (numRound v) (graphYMax s) then numRound v else graphYMax s)"
  "length (screenBuf (plotRecorded dev v screen s)) = length (screenBuf s)"
  by (simp_all add: plotRecorded_def Let_def)

lemma plot_fields:
  assumes "plot dev v screen s = Some s'"
  shows "plotArray s' =
     (if length (plotArray s) = 127 then tl (plotArray s) else plotArray s) @ [numRound v]"
    "graphYMin s' = (if nlt (numRound v) (graphYMin s) then numRound v else graphYMin s)"
    "graphYMax s' = (if ngt (numRound v) (graphYMax s) then numRound v else graphYMax s)"
    "length (screenBuf s') = length (screenBuf s)"
proof -
  from assms obtain s1 where l: "plotLoop 0 (length (plotArray s)) (plotRecorded dev v screen s) = Some s1"
    and s': "s' = refresh dev None s1"
    unfolding plot_by_parts by auto
  from plotLoop_fields [OF l] show
    "plotArray s' =
     (if length (plotArray s) = 127 then tl (plotArray s) else plotArray s) @ [numRound v]"
    "graphYMin s' = (if nlt (numRound v) (graphYMin s) then numRound v else graphYMin s)"
    "graphYMax s' = (if ngt (numRound v) (graphYMax s) then numRound v else graphYMax s)"
    "length (screenBuf s') = length (screenBuf s)"
    unfolding s' by (simp_all add: plotRecorded_fields)
qed

section \<open>The sample window\<close>

lemma plot_window_step:
  assumes "length xs \<le> 127"
  shows "(if length xs = 127 then tl xs else xs) @ [r] = drop (length (xs @ [r]) - 127) (xs @ [r])"
proof (cases "length xs = 127")
  case True
  then have "xs \<noteq> []" by auto
  then obtain a as where "xs = a # as" by (cases xs) auto
  with True show ?thesis by simp
next
  case False
  with assms show ?thesis by simp
qed

lemma plots_plotArray:
  "length (plotArray s) \<le> 127 \<Longrightarrow> plots dev vs s = Some s' \<Longrightarrow>
   plotArray s' =
     drop (length (plotArray s @ map numRound vs) - 127) (plotArray s @ map numRound vs)"
proof (induction vs arbitrary: s)
  case Nil
  then show ?case by simp
next
  case (Cons v vs)
  from Cons.prems(2) obtain s1 where p: "plot dev v None s = Some s1"
    and r: "plots dev vs s1 = Some s'"
    by (auto split: option.splits)
  let ?xs = "plotArray s" and ?r = "numRound v"
  let ?ys = "drop (length (?xs @ [?r]) - 127) (?xs @ [?r])"
  have step: "plotArray s1 = ?ys"
    using plot_window_step [OF Cons.prems(1)] by (simp add: plot_fields(1) [OF p])
  have len: "length (plotArray s1) \<le> 127" unfolding step by simp
  have "plotArray s' =
        drop (length (?ys @ map numRound vs) - 127) (?ys @ map numRound vs)"
    using Cons.IH [OF len r] step by simp
  also have "\<dots> = drop (length (?xs @ map numRound (v # vs)) - 127) (?xs @ map numRound (v # vs))"
  proof (cases "length ?xs = 127")
    case True
    then show ?thesis by simp
  next
    case False
    with Cons.prems have "length ?xs \<le> 126" by simp
    then show ?thesis by simp
  qed
  finally show ?case .
qed

section \<open>The graph scale\<close>

lemma nle_refl: "a \<noteq> NaN \<Longrightarrow> nle a a"
  by (cases a) (simp_all add: nle_def)

lemma nle_trans: "nle a b \<Longrightarrow> nle b c \<Longrightarrow> nle a c"
  by (cases a; cases b; cases c) (simp_all add: nle_def)

lemma nlt_nle: "nlt a b \<Longrightarrow> nle a b"
  by (cases a; cases b) (simp_all add: nle_def)

lemma not_nlt_nle: "a \<noteq> NaN \<Longrightarrow> b \<noteq> NaN \<Longrightarrow> \<not> nlt a b \<Longrightarrow> nle b a"
  by (simp add: nle_def)

lemma nle_not_NaN: "nle a b \<Longrightarrow> a \<noteq> NaN \<and> b \<noteq> NaN"
  by (simp add: nle_def)

lemma plotReady_recorded:
  assumes "plotReady s"
  shows "plotReady (plotRecorded dev v screen s)"
proof -
  define r where "r = numRound v"
  define lo where "lo = graphYMin s"
  define hi where "hi = graphYMax s"
  define lo' where "lo' = (if nlt r lo then r else lo)"
  define hi' where "hi' = (if ngt r hi then r else hi)"
  let ?w = "(if length (plotArray s) = 127 then tl (plotArray s) else plotArray s)"
  have b: "nle lo (Finite 0)" "nle (Finite 100) hi"
    using assms by (simp_all add: plotReady_def lo_def hi_def)
  have n: "lo \<noteq> NaN" "hi \<noteq> NaN" using b by (auto dest: nle_not_NaN)
  have lo': "nle lo' lo" using n(1) by (auto simp: lo'_def nlt_nle nle_refl)
  have hi': "nle hi hi'" using n(2) by (auto simp: hi'_def ngt_def nlt_nle nle_refl)
  have sub: "set ?w \<subseteq> set (plotArray s)"
    by (cases "plotArray s") auto
  have len: "length (?w @ [r]) \<le> 127"
    using assms by (simp add: plotReady_def)
  have old: "\<forall>x \<in> set (plotArray s). x = NaN \<or> (nle lo x \<and> nle x hi)"
    using assms by (simp add: plotReady_def list_all_iff lo_def hi_def)
  have new: "r = NaN \<or> (nle lo' r \<and> nle r hi')"
  proof (cases "r = NaN")
    case False
    have "nle lo' r" using False n(1) by (auto simp: lo'_def nle_refl not_nlt_nle)
    moreover have "nle r hi'" using False n(2) by (auto simp: hi'_def ngt_def nle_refl not_nlt_nle)
    ultimately show ?thesis by simp
  qed simp
  have all: "\<forall>x \<in> set (?w @ [r]). x = NaN \<or> (nle lo' x \<and> nle x hi')"
  proof
    fix x assume "x \<in> set (?w @ [r])"
    then have "x = r \<or> x \<in> set (plotArray s)" using sub by auto
    then show "x = NaN \<or> (nle lo' x \<and> nle x hi')"
      using old new lo' hi' by (auto intro: nle_trans)
  qed
  have bounds: "nle lo' (Finite 0)" "nle (Finite 100) hi'"
    using b lo' hi' by (auto intro: nle_trans)
  have buf: "length (screenBuf (plotRecorded dev v screen s)) = 1025"
    using assms by (simp add: plotRecorded_fields(4) plotReady_def)
  show ?thesis
    unfolding plotReady_def plotRecorded_fields(1-3) list_all_iff
    using buf len all bounds unfolding r_def lo_def hi_def lo'_def hi'_def by blast
qed

lemma plotReady_plot:
  assumes "plotReady s" "plot dev v screen s = Some s'"
  shows "plotReady s'"
proof -
  from plotReady_recorded [OF assms(1), of dev v screen]
  show ?thesis
    unfolding plotReady_def plot_fields [OF assms(2)] plotRecorded_fields(1-4)
    by simp
qed

lemma plotReady_initial: "plotReady initial_display"
  by (simp add: plotReady_def initial_display_def nle_def)

lemma plotReady_plots: "plotReady s \<Longrightarrow> plots dev vs s = Some s' \<Longrightarrow> plotReady s'"
  by (induction vs arbitrary: s) (auto split: option.splits intro: plotReady_plot)

lemma plot_scale_monotone:
  assumes "plotReady s" "plot dev v screen s = Some s'"
  shows "nle (graphYMin s') (graphYMin s) \<and> nle (graphYMax s) (graphYMax s')"
proof -
  have "nle (graphYMin s) (Finite 0)" "nle (Finite 100) (graphYMax s)"
    using assms(1) by (simp_all add: plotReady_def)
  then have n: "graphYMin s \<noteq> NaN" "graphYMax s \<noteq> NaN" by (auto dest: nle_not_NaN)
  show ?thesis
    unfolding plot_fields [OF assms(2)] using n by (auto simp: ngt_def nlt_nle nle_refl)
qed

section \<open>Text layout\<close>

lemma showLoop_single:
  "showLoop inputString a [l] textLine xyi s = snd (showLine inputString a l textLine xyi s)"
  by (simp split: prod.splits)

text \<open>
  C5. When the text with its appended space is longer than 26 characters and the call names
  line 8 (row index 7), \<open>show\<close> does not wrap: the only line is the first 25 characters of
  the space-appended text, and the call renders that one line on the lazily initialised
  display.
\<close>

theorem show_last_line_truncates:
  assumes "length (inputData @ '' '') > 26"
  shows "splitLines (inputData @ '' '') (showRow (Some 8)) = [take 25 (inputData @ '' '')]
       \<and> show dev inputData (Some 8) displayShowAlign screen s =
           snd (showLine (inputData @ '' '')
                  (case displayShowAlign of None \<Rightarrow> Left | Some a \<Rightarrow> a)
                  (take 25 (inputData @ '' '')) 0 (0, 7, 0)
                  (if initialised s = 0
                   then initDisplay dev (Some 1) (s\<lparr>displayAddress := setScreenAddr screen\<rparr>)
                   else s\<lparr>displayAddress := setScreenAddr screen\<rparr>))"
proof -
  have lines: "splitLines (inputData @ '' '') (showRow (Some 8)) = [take 25 (inputData @ '' '')]"
    using assms by (simp add: splitLines_def showRow_def NUMBER_OF_CHAR_PER_LINE_def substr_def)
  have row: "showRow (Some 8) = 7" by (simp add: showRow_def)
  show ?thesis
    using lines unfolding show_def Let_def row
    by (simp add: showLoop_single del: showLoop.simps)
qed

theorem show_last_line_truncates_witness:
  "length (''the quick brown fox jumps over'' @ '' '') > 26
   \<and> splitLines (''the quick brown fox jumps over'' @ '' '') (showRow (Some 8))
       = [''the quick brown fox jumps'']"
proof -
  have h: "length (''the quick brown fox jumps over'' @ '' '') > 26" by simp
  from show_last_line_truncates [OF h] h show ?thesis by simp
qed

section \<open>Pixel primitives: set, then clear\<close>

lemma toInt32_id: "- (2 ^ 31) \<le> i \<Longrightarrow> i < 2 ^ 31 \<Longrightarrow> toInt32 i = i"
  by (simp add: toInt32_def)

lemma shr3_row: "0 \<le> y \<Longrightarrow> y \<le> 63 \<Longrightarrow> shr y 3 = y div 8"
  by (simp add: shr_def toInt32_id drop_bit_eq_div)

lemma jsRem_nonneg: "0 \<le> a \<Longrightarrow> jsRem a m = a mod m"
  by (simp add: jsRem_def)

lemma shl1_small: "0 \<le> b \<Longrightarrow> b < 8 \<Longrightarrow> shl1 b = 2 ^ nat b"
proof -
  assume b: "0 \<le> b" "b < 8"
  then have n: "nat b < 8" by simp
  have "(2::int) ^ nat b < 2 ^ 8" using n by (rule_tac power_strict_increasing) simp_all
  then have "(2::int) ^ nat b < 2 ^ 31" by simp
  moreover have "- (2 ^ 31) \<le> (2::int) ^ nat b" by (rule order_trans [of _ 0]) simp_all
  ultimately show ?thesis using b by (simp add: shl1_def toInt32_id)
qed

lemma getByte_range: "0 \<le> getByte buf off" "getByte buf off < 256"
  using uint_bounded [of "buf ! nat off"] by (simp_all add: getByte_def)

lemma getByte_setByte:
  "getByte (setByte buf i v) j =
     (if i = j \<and> 0 \<le> i \<and> i < int (length buf) then take_bit 8 v else getByte buf j)"
  by (auto simp: getByte_def setByte_def uint_word_of_int_eq nth_list_update)

lemma clearBit_unset: "0 \<le> b \<Longrightarrow> b < 8 \<Longrightarrow> clearBit d b = unset_bit (nat b) d"
  by (simp add: clearBit_def shl1_small unset_bit_eq and_exp_eq_0_iff_not_bit)

lemma setBit_or: "0 \<le> b \<Longrightarrow> b < 8 \<Longrightarrow> d OR shl1 b = set_bit (nat b) d"
  by (simp add: shl1_small set_bit_eq_or or.commute)

lemma byte_or_shl1: "0 \<le> b \<Longrightarrow> b < 8 \<Longrightarrow> (word_of_int (uint w OR shl1 b) :: byte) = set_bit (nat b) w"
  by (rule bit_word_eqI) (auto simp: shl1_small bit_simps)

lemma byte_clearBit: "0 \<le> b \<Longrightarrow> b < 8 \<Longrightarrow> (word_of_int (clearBit (uint w) b) :: byte) = unset_bit (nat b) w"
  by (rule bit_word_eqI) (auto simp: clearBit_unset bit_simps)

lemma getByte_in: "0 \<le> off \<Longrightarrow> off < int (length buf) \<Longrightarrow> getByte buf off = uint (buf ! nat off)"
  by (simp add: getByte_def)

lemma setByte_in: "0 \<le> off \<Longrightarrow> off < int (length buf) \<Longrightarrow> setByte buf off v = buf[nat off := word_of_int v]"
  by (simp add: setByte_def)

lemma pixel_index_range:
  "0 \<le> (x::int) \<Longrightarrow> x \<le> 127 \<Longrightarrow> 0 \<le> (y::int) \<Longrightarrow> y \<le> 63 \<Longrightarrow>
   1 \<le> x + (y div 8) * 128 + 1 \<and> x + (y div 8) * 128 + 1 \<le> 1024"
proof -
  assume a: "0 \<le> x" "x \<le> 127" "0 \<le> y" "y \<le> 63"
  have "0 \<le> y div 8" using a(3) by simp
  moreover have "y div 8 \<le> 7" using a(4) by simp
  ultimately show ?thesis using a(1,2) by simp
qed

lemma initDisplay_screenBuf:
  "screenBuf (initDisplay dev screen s) =
     (if dev (setScreenAddr screen) then setByte (replicate (length (screenBuf s)) 0) 0 0x40
      else screenBuf s)"
  by (simp add: initDisplay_def Let_def)

lemma initDisplay_initialised:
  "initialised (initDisplay dev screen s) =
     (if dev (setScreenAddr screen) then 1 else initialised s)"
  by (simp add: initDisplay_def Let_def)

lemma setPixel_screenBuf:
  assumes "0 \<le> x" "x \<le> 127" "0 \<le> y" "y \<le> 63" "length (screenBuf s) = 1025"
  shows "screenBuf (setPixel dev x y screen s) =
     (let b = (if initialised s = 0 \<and> dev DISPLAY_ADDR_1
               then setByte (replicate 1025 0) 0 0x40 else screenBuf s)
      in b[nat (x + (y div 8) * 128 + 1) :=
             set_bit (nat (y mod 8)) (b ! nat (x + (y div 8) * 128 + 1))])"
proof -
  from pixel_index_range [OF assms(1-4)]
  have r: "0 \<le> x + (y div 8) * 128 + 1" "x + (y div 8) * 128 + 1 < 1025" by simp_all
  have m: "0 \<le> y mod 8" "y mod 8 < 8" by simp_all
  show ?thesis
    using assms(5) r
    by (simp add: setPixel_def Let_def shr3_row assms(3,4) jsRem_nonneg initDisplay_screenBuf
        setScreenAddr_def getByte_in setByte_in byte_or_shl1 [OF m])
qed

lemma clearPixel_screenBuf:
  assumes "0 \<le> x" "x \<le> 127" "0 \<le> y" "y \<le> 63" "length (screenBuf s) = 1025"
  shows "screenBuf (clearPixel dev x y screen s) =
     (let b = (if initialised s = 0 \<and> dev DISPLAY_ADDR_1
               then setByte (replicate 1025 0) 0 0x40 else screenBuf s)
      in b[nat (x + (y div 8) * 128 + 1) :=
             unset_bit (nat (y mod 8)) (b ! nat (x + (y div 8) * 128 + 1))])"
proof -
  from pixel_index_range [OF assms(1-4)]
  have r: "0 \<le> x + (y div 8) * 128 + 1" "x + (y div 8) * 128 + 1 < 1025" by simp_all
  have m: "0 \<le> y mod 8" "y mod 8 < 8" by simp_all
  show ?thesis
    using assms(5) r
    by (simp add: clearPixel_def Let_def shr3_row assms(3,4) jsRem_nonneg initDisplay_screenBuf
        setScreenAddr_def getByte_in setByte_in byte_clearBit [OF m])
qed

lemma setPixel_initialised:
  "initialised (setPixel dev x y screen s) =
     (if initialised s = 0 \<and> dev DISPLAY_ADDR_1 then 1 else initialised s)"
  by (simp add: setPixel_def Let_def initDisplay_initialised setScreenAddr_def set_pos_def
      writeOneByte_def i2cWriteBuffer_def)

lemma length_setPixel:
  "length (screenBuf (setPixel dev x y screen s)) = length (screenBuf s)"
  by (simp add: setPixel_def Let_def initDisplay_screenBuf setByte_def set_pos_def
      writeOneByte_def i2cWriteBuffer_def)

lemma unset_set_bit_byte: "unset_bit n (set_bit n w) = unset_bit n (w :: byte)"
  by (rule bit_word_eqI) (auto simp: bit_simps)

lemma unset_bit_clear_byte: "\<not> bit w n \<Longrightarrow> unset_bit n w = (w :: byte)"
  by (rule bit_word_eqI) (auto simp: bit_simps)

lemma setPixel_clearPixel_final:
  assumes "0 \<le> x" "x \<le> 127" "0 \<le> y" "y \<le> 63" "length (screenBuf s) = 1025"
  shows "screenBuf (clearPixel dev x y screen' (setPixel dev x y screen s))
           ! nat (x + (y div 8) * 128 + 1) =
         (if initialised s = 0 \<and> dev DISPLAY_ADDR_1 then 0
          else unset_bit (nat (y mod 8)) (screenBuf s ! nat (x + (y div 8) * 128 + 1)))"
proof -
  let ?i = "nat (x + (y div 8) * 128 + 1)" and ?n = "nat (y mod 8)"
  let ?s1 = "setPixel dev x y screen s"
  let ?final = "screenBuf (clearPixel dev x y screen' ?s1) ! ?i"
  from pixel_index_range [OF assms(1-4)] have i: "1 \<le> ?i" "?i < 1025" by linarith+
  have len1: "length (screenBuf ?s1) = 1025" by (simp add: length_setPixel assms(5))
  show "?final =
      (if initialised s = 0 \<and> dev DISPLAY_ADDR_1 then 0 else unset_bit ?n (screenBuf s ! ?i))"
  proof (cases "initialised s = 0 \<and> dev DISPLAY_ADDR_1")
    case True
    let ?b = "setByte (replicate 1025 0) 0 0x40"
    have b: "?b ! ?i = 0" using i by (simp add: setByte_def)
    have s1: "screenBuf ?s1 = ?b[?i := set_bit ?n (?b ! ?i)]"
      using True by (simp add: setPixel_screenBuf [OF assms] Let_def)
    have "initialised ?s1 = 1" using True by (simp add: setPixel_initialised)
    then have "?final = unset_bit ?n (screenBuf ?s1 ! ?i)"
      using i len1 by (simp add: clearPixel_screenBuf [OF assms(1-4) len1] Let_def)
    also have "\<dots> = unset_bit ?n (set_bit ?n (?b ! ?i))"
      using i by (simp add: s1)
    also have "\<dots> = unset_bit ?n 0" unfolding b by (rule unset_set_bit_byte)
    also have "\<dots> = 0" by simp
    finally show ?thesis using True by simp
  next
    case False
    then have c: "(initialised s = 0 \<and> dev DISPLAY_ADDR_1) = False" by simp
    have s1: "screenBuf ?s1 = (screenBuf s)[?i := set_bit ?n (screenBuf s ! ?i)]"
      by (simp only: setPixel_screenBuf [OF assms] Let_def c if_False)
    have c1: "(initialised ?s1 = 0 \<and> dev DISPLAY_ADDR_1) = False"
      using False by (auto simp: setPixel_initialised)
    have "?final = unset_bit ?n (screenBuf ?s1 ! ?i)"
      using i len1 by (simp only: clearPixel_screenBuf [OF assms(1-4) len1] Let_def c1 if_False
          nth_list_update_eq)
    also have "\<dots> = unset_bit ?n (set_bit ?n (screenBuf s ! ?i))"
      using i assms(5) by (simp add: s1)
    also have "\<dots> = unset_bit ?n (screenBuf s ! ?i)" by (rule unset_set_bit_byte)
    finally show ?thesis by (simp only: c if_False)
  qed
qed

text \<open>
  C1 (as amended). For \<open>x\<close> in [0,127], \<open>y\<close> in [0,63] and a frame buffer of 1025 bytes,
  \<open>setPixel(x, y)\<close> followed by \<open>clearPixel(x, y)\<close> leaves the byte at
  \<open>x + (y >> 3) * 128 + 1\<close> equal to its value before \<open>setPixel\<close> with bit \<open>y mod 8\<close>
  cleared, or equal to 0 when \<open>setPixel\<close> first initialises the display (flag 0 and the
  controller answers), which zeroes the frame buffer. So the byte returns to its earlier
  value when the pixel was off before and no initialisation took place.
\<close>

theorem setPixel_clearPixel_byte:
  assumes "0 \<le> x" "x \<le> 127" "0 \<le> y" "y \<le> 63" "length (screenBuf s) = 1025"
  shows "screenBuf (clearPixel dev x y screen' (setPixel dev x y screen s))
           ! nat (x + (y div 8) * 128 + 1) =
         (if initialised s = 0 \<and> dev DISPLAY_ADDR_1 then 0
          else unset_bit (nat (y mod 8)) (screenBuf s ! nat (x + (y div 8) * 128 + 1)))
       \<and> ((initialised s \<noteq> 0 \<or> \<not> dev DISPLAY_ADDR_1)
            \<and> \<not> bit (screenBuf s ! nat (x + (y div 8) * 128 + 1)) (nat (y mod 8)) \<longrightarrow>
          screenBuf (clearPixel dev x y screen' (setPixel dev x y screen s))
            ! nat (x + (y div 8) * 128 + 1) =
          screenBuf s ! nat (x + (y div 8) * 128 + 1))"
  using setPixel_clearPixel_final [OF assms, of dev screen' screen]
  by (auto simp: unset_bit_clear_byte)

theorem setPixel_clearPixel_byte_witness:
  "(0::int) \<le> 3 \<and> (3::int) \<le> 127 \<and> (0::int) \<le> 10 \<and> (10::int) \<le> 63
   \<and> length (screenBuf (initial_display\<lparr>initialised := 1\<rparr>)) = 1025
   \<and> screenBuf (clearPixel (\<lambda>_. True) 3 10 None
                  (setPixel (\<lambda>_. True) 3 10 None (initial_display\<lparr>initialised := 1\<rparr>))) ! 132
       = screenBuf (initial_display\<lparr>initialised := 1\<rparr>) ! 132"
proof -
  have l: "length (screenBuf (initial_display\<lparr>initialised := 1\<rparr>)) = 1025"
    by (simp add: initial_display_def)
  have b: "\<not> bit (screenBuf (initial_display\<lparr>initialised := 1\<rparr>) ! 132) (2::nat)"
    by (simp add: initial_display_def)
  have i: "nat (3 + (10 div 8) * 128 + 1) = 132" "nat (10 mod 8) = 2" by simp_all
  from setPixel_clearPixel_byte [of 3 10 "initial_display\<lparr>initialised := 1\<rparr>" "\<lambda>_. True" None None]
    l b show ?thesis
    unfolding i by (simp add: initial_display_def)
qed

text \<open>
  The claim as written fails when the pixel is already on: after \<open>setPixel(0, 0)\<close> on the
  fresh display the byte at index 1 is 1, and a further \<open>setPixel(0, 0)\<close> and
  \<open>clearPixel(0, 0)\<close> leave it 0.
\<close>

theorem setPixel_clearPixel_byte_counterexample:
  "screenBuf (setPixel (\<lambda>_. True) 0 0 None initial_display) ! 1 = 1
   \<and> screenBuf (clearPixel (\<lambda>_. True) 0 0 None
        (setPixel (\<lambda>_. True) 0 0 None (setPixel (\<lambda>_. True) 0 0 None initial_display))) ! 1 = 0"
proof -
  let ?s = "setPixel (\<lambda>_. True) 0 0 None initial_display"
  have l0: "length (screenBuf initial_display) = 1025" by (simp add: initial_display_def)
  have l: "length (screenBuf ?s) = 1025" by (simp add: length_setPixel l0)
  have i: "initialised ?s = 1" by (simp add: setPixel_initialised initial_display_def)
  have c: "initialised initial_display = 0 \<and> True" by (simp add: initial_display_def)
  have "screenBuf ?s = (setByte (replicate 1025 0) 0 0x40)
          [1 := set_bit 0 (setByte (replicate 1025 0) 0 0x40 ! 1)]"
    using setPixel_screenBuf [of 0 0 initial_display "\<lambda>_. True" None, OF _ _ _ _ l0] c
    by (simp add: Let_def)
  then have b: "screenBuf ?s ! 1 = 1"
    by (simp add: setByte_def set_bit_eq_or)
  have "screenBuf (clearPixel (\<lambda>_. True) 0 0 None (setPixel (\<lambda>_. True) 0 0 None ?s)) ! 1
        = unset_bit 0 (screenBuf ?s ! 1)"
    using setPixel_clearPixel_final [of 0 0 ?s "\<lambda>_. True" None None, OF _ _ _ _ l] i by simp
  with b show ?thesis by (simp add: unset_bit_eq)
qed

section \<open>Text layout: start columns and wrapping\<close>

lemma showLine_long:
  "\<not> int (length inputString) < NUMBER_OF_CHAR_PER_LINE - 1 \<Longrightarrow>
   showLine inputString a displayString textLine (x, y, ind) s = renderLine displayString (x, y, ind) s"
  by (simp add: showLine_def alignX_def)

lemma renderLine_column: "fst (fst (renderLine displayString (x, y, ind) s)) = x"
  by (simp add: renderLine_def Let_def split: prod.splits)

lemma showLoop_long:
  "\<not> int (length inputString) < NUMBER_OF_CHAR_PER_LINE - 1 \<Longrightarrow>
   showLoop inputString a ls textLine xyi s = showLoop inputString Left ls textLine xyi s"
proof (induction ls arbitrary: textLine xyi s)
  case Nil
  then show ?case by simp
next
  case (Cons l ls)
  obtain x y ind where xyi: "xyi = (x, y, ind)" by (cases xyi) auto
  show ?case
    using Cons.prems Cons.IH [OF Cons.prems]
    by (simp add: xyi showLine_long split: prod.splits)
qed

lemma showLoop_renderAtColumns:
  "\<not> int (length inputString) < NUMBER_OF_CHAR_PER_LINE - 1 \<Longrightarrow>
   showLoop inputString a ls textLine (0, y, ind) s =
     renderAtColumns (map (\<lambda>l. (l, 0)) ls) y ind s"
proof (induction ls arbitrary: textLine y ind s)
  case Nil
  then show ?case by simp
next
  case (Cons l ls)
  obtain x' y' ind' s' where r: "renderLine l (0, y, ind) s = ((x', y', ind'), s')"
    by (cases "renderLine l (0, y, ind) s") auto
  have "x' = 0" using renderLine_column [of l 0 y ind s] by (simp add: r)
  then show ?case
    using Cons.IH [OF Cons.prems, of "textLine + 1" y' ind' s']
    by (simp add: showLine_long [OF Cons.prems] r)
qed

lemma showLine_short:
  "int (length inputString) < 25 \<Longrightarrow>
   showLine inputString a displayString textLine (x, y, ind) s =
     renderLine displayString
       (case a of
          Left \<Rightarrow> 0
        | Centre \<Rightarrow> mathRound (of_int (26 - int (length displayString)) / 2)
        | Right \<Rightarrow> (26 - int (length displayString) - 1) + textLine,
        y, ind) s"
  by (cases a) (simp_all add: showLine_def alignX_def NUMBER_OF_CHAR_PER_LINE_def)

lemma splitLines_short:
  "int (length inputString) \<le> NUMBER_OF_CHAR_PER_LINE \<Longrightarrow> splitLines inputString y = [inputString]"
  by (simp add: splitLines_def)

text \<open>
  C6 (as amended). When the text with its appended space is shorter than 25 characters,
  \<open>show\<close> produces the single line of index 0 and starts it at character cell 0 for Left,
  at round((26 - line length) / 2) for Centre, and at (26 - line length - 1) + 0 for Right.
  For any longer text the alignment block is skipped: the call does what it does with Left
  alignment, and it renders every line that the layout produces at character cell 0, on
  successive rows; each line is rendered at the column left by the line before it, and
  that column is the initial 0.
\<close>

theorem show_start_column:
  "(int (length (inputData @ '' '')) < 25 \<longrightarrow>
      show dev inputData line displayShowAlign screen s =
        snd (renderLine (inputData @ '' '')
               (case (case displayShowAlign of None \<Rightarrow> Left | Some a \<Rightarrow> a) of
                  Left \<Rightarrow> 0
                | Centre \<Rightarrow> mathRound (of_int (26 - int (length (inputData @ '' ''))) / 2)
                | Right \<Rightarrow> (26 - int (length (inputData @ '' '')) - 1) + 0,
                showRow line, 0)
               (if initialised s = 0
                then initDisplay dev (Some 1) (s\<lparr>displayAddress := setScreenAddr screen\<rparr>)
                else s\<lparr>displayAddress := setScreenAddr screen\<rparr>)))
   \<and> (\<not> int (length (inputData @ '' '')) < 25 \<longrightarrow>
        show dev inputData line displayShowAlign screen s =
          show dev inputData line (Some Left) screen s
      \<and> show dev inputData line displayShowAlign screen s =
          renderAtColumns
            (map (\<lambda>displayString. (displayString, 0))
               (splitLines (inputData @ '' '') (showRow line)))
            (showRow line) 0
            (if initialised s = 0
             then initDisplay dev (Some 1) (s\<lparr>displayAddress := setScreenAddr screen\<rparr>)
             else s\<lparr>displayAddress := setScreenAddr screen\<rparr>)
      \<and> (\<forall>a displayString textLine x y ind t.
            showLine (inputData @ '' '') a displayString textLine (x, y, ind) t =
              renderLine displayString (x, y, ind) t
          \<and> fst (fst (renderLine displayString (x, y, ind) t)) = x))"
proof (intro conjI impI allI)
  assume short: "int (length (inputData @ '' '')) < 25"
  then have one: "splitLines (inputData @ '' '') (showRow line) = [inputData @ '' '']"
    by (intro splitLines_short) (simp add: NUMBER_OF_CHAR_PER_LINE_def)
  show "show dev inputData line displayShowAlign screen s =
        snd (renderLine (inputData @ '' '')
               (case (case displayShowAlign of None \<Rightarrow> Left | Some a \<Rightarrow> a) of
                  Left \<Rightarrow> 0
                | Centre \<Rightarrow> mathRound (of_int (26 - int (length (inputData @ '' ''))) / 2)
                | Right \<Rightarrow> (26 - int (length (inputData @ '' '')) - 1) + 0,
                showRow line, 0)
               (if initialised s = 0
                then initDisplay dev (Some 1) (s\<lparr>displayAddress := setScreenAddr screen\<rparr>)
                else s\<lparr>displayAddress := setScreenAddr screen\<rparr>))"
    unfolding show_def Let_def one showLoop_single showLine_short [OF short]
    by simp
next
  assume long: "\<not> int (length (inputData @ '' '')) < 25"
  then have l: "\<not> int (length (inputData @ '' '')) < NUMBER_OF_CHAR_PER_LINE - 1"
    by (simp add: NUMBER_OF_CHAR_PER_LINE_def)
  show "show dev inputData line displayShowAlign screen s = show dev inputData line (Some Left) screen s"
    unfolding show_def Let_def
    by (simp add: showLoop_long [OF l, where a = "case displayShowAlign of None \<Rightarrow> Left | Some a \<Rightarrow> a"])
  show "show dev inputData line displayShowAlign screen s =
          renderAtColumns
            (map (\<lambda>displayString. (displayString, 0))
               (splitLines (inputData @ '' '') (showRow line)))
            (showRow line) 0
            (if initialised s = 0
             then initDisplay dev (Some 1) (s\<lparr>displayAddress := setScreenAddr screen\<rparr>)
             else s\<lparr>displayAddress := setScreenAddr screen\<rparr>)"
    unfolding show_def Let_def showLoop_renderAtColumns [OF l] by simp
  fix a displayString textLine x y ind t
  show "showLine (inputData @ '' '') a displayString textLine (x, y, ind) t =
          renderLine displayString (x, y, ind) t"
    by (rule showLine_long [OF l])
  show "fst (fst (renderLine displayString (x, y, ind) t)) = x"
    by (rule renderLine_column)
qed

theorem show_start_column_witness:
  "int (length (''HI'' @ '' '')) < 25
   \<and> show (\<lambda>_. True) ''HI'' None (Some Centre) None initial_display =
       snd (renderLine (''HI'' @ '' '') (12, 0, 0) (initDisplay (\<lambda>_. True) (Some 1) initial_display))
   \<and> \<not> int (length (replicate 24 CHR ''a'' @ '' '')) < 25
   \<and> show (\<lambda>_. True) (replicate 24 CHR ''a'') None (Some Centre) None initial_display =
       show (\<lambda>_. True) (replicate 24 CHR ''a'') None (Some Left) None initial_display"
proof -
  have r: "mathRound (23 / 2) = 12" by (simp add: mathRound_def)
  have i: "initialised initial_display = 0"
    "initial_display\<lparr>displayAddress := setScreenAddr None\<rparr> = initial_display"
    by (simp_all add: initial_display_def setScreenAddr_def)
  have a: "show (\<lambda>_. True) ''HI'' None (Some Centre) None initial_display =
       snd (renderLine (''HI'' @ '' '') (12, 0, 0) (initDisplay (\<lambda>_. True) (Some 1) initial_display))"
    using show_start_column [of "''HI''" "\<lambda>_. True" None "Some Centre" None initial_display]
    by (simp add: r i showRow_def)
  have b: "show (\<lambda>_. True) (replicate 24 CHR ''a'') None (Some Centre) None initial_display =
       show (\<lambda>_. True) (replicate 24 CHR ''a'') None (Some Left) None initial_display"
    using show_start_column [of "replicate 24 CHR ''a''" "\<lambda>_. True" None "Some Centre" None initial_display]
    by simp
  from a b show ?thesis by simp
qed

text \<open>
  The claim as written fails for a text of 24 characters with Centre alignment: the
  space-appended text has 25 characters, the start column stays 0, and the claimed column
  is round(1 / 2) = 1.
\<close>

theorem show_start_column_counterexample:
  "alignX (replicate 24 CHR ''a'' @ '' '') Centre (replicate 24 CHR ''a'' @ '' '') 0 0 = 0
   \<and> mathRound (of_int (26 - int (length (replicate 24 CHR ''a'' @ '' ''))) / 2) = 1
   \<and> showLine (replicate 24 CHR ''a'' @ '' '') Centre (replicate 24 CHR ''a'' @ '' '') 0
         (0, 0, 0) initial_display
       = renderLine (replicate 24 CHR ''a'' @ '' '') (0, 0, 0) initial_display"
  by (simp add: showLine_def alignX_def NUMBER_OF_CHAR_PER_LINE_def mathRound_def)

text \<open>
  C4. A text of 60 characters whose words have 11, 11, 11, 11 and 12 characters, shown from
  line 1: the wrap produces two lines, and the second has 37 characters. The second
  argument of \<open>substr\<close> is a length, and the loop passes it the position of the last
  space, so every line after the first runs on to that many characters.
\<close>

theorem show_wrap_overlong_line:
  "length ''aaaaaaaaaaa bbbbbbbbbbb ccccccccccc ddddddddddd eeeeeeeeeeee'' = 60
   \<and> splitLines (''aaaaaaaaaaa bbbbbbbbbbb ccccccccccc ddddddddddd eeeeeeeeeeee'' @ '' '')
        (showRow (Some 1))
      = [''aaaaaaaaaaa bbbbbbbbbbb'', ''ccccccccccc ddddddddddd eeeeeeeeeeee '']
   \<and> length ''ccccccccccc ddddddddddd eeeeeeeeeeee '' = 37"
  by code_simp

section \<open>Rasterizing a line of text\<close>

lemma upto_0_4: "[0..4::int] = [0, 1, 2, 3, 4]"
  by code_simp

lemma update_block5:
  "Suc (Suc (Suc (Suc (Suc n)))) \<le> length xs \<Longrightarrow>
   xs[n := a, Suc n := b, Suc (Suc n) := c, Suc (Suc (Suc n)) := d, Suc (Suc (Suc (Suc n))) := e]
     = take n xs @ [a, b, c, d, e] @ drop (Suc (Suc (Suc (Suc (Suc n))))) xs"
proof (induction n arbitrary: xs)
  case 0
  then obtain x0 x1 x2 x3 x4 r where "xs = x0 # x1 # x2 # x3 # x4 # r"
    by (cases xs; simp; rename_tac a1 l1; case_tac l1; simp; rename_tac a2 l2; case_tac l2; simp;
        rename_tac a3 l3; case_tac l3; simp; rename_tac a4 l4; case_tac l4; simp)
  then show ?case by simp
next
  case (Suc n)
  then obtain x r where xs: "xs = x # r" by (cases xs) auto
  with Suc.prems have "Suc (Suc (Suc (Suc (Suc n)))) \<le> length r" by simp
  from Suc.IH [OF this] show ?case by (simp add: xs)
qed

lemma length_glyphBytes [simp]: "length (glyphBytes c) = 5"
  by (simp add: glyphBytes_def upto_0_4)

lemma drawGlyph_unfold:
  "drawGlyph x y c bytes (ind, buf) =
     ((x + c) * 5 + y * 128 + 1 + 4,
      setByte (setByte (setByte (setByte (setByte buf
        ((x + c) * 5 + y * 128 + 1) (glyphColumn bytes 0))
        ((x + c) * 5 + y * 128 + 1 + 1) (glyphColumn bytes 1))
        ((x + c) * 5 + y * 128 + 1 + 2) (glyphColumn bytes 2))
        ((x + c) * 5 + y * 128 + 1 + 3) (glyphColumn bytes 3))
        ((x + c) * 5 + y * 128 + 1 + 4) (glyphColumn bytes 4))"
  by (simp add: drawGlyph_def upto_0_4 Let_def)

lemma setByte_update:
  "0 \<le> off \<Longrightarrow> nat off < length buf \<Longrightarrow> setByte buf off v = buf[nat off := word_of_int v]"
  by (simp add: setByte_def nat_less_iff)

lemma drawGlyph_block:
  assumes "0 \<le> (x + c) * 5 + y * 128 + 1" "(x + c) * 5 + y * 128 + 1 + 5 \<le> int (length buf)"
  shows "drawGlyph x y c (font (of_char ch)) (ind, buf) =
           ((x + c) * 5 + y * 128 + 1 + 4,
            take (nat ((x + c) * 5 + y * 128 + 1)) buf @ glyphBytes ch
              @ drop (nat ((x + c) * 5 + y * 128 + 1) + 5) buf)"
proof -
  define b where "b = (x + c) * 5 + y * 128 + 1"
  define n where "n = nat b"
  have b0: "0 \<le> b" and r: "Suc (Suc (Suc (Suc (Suc n)))) \<le> length buf"
    using assms unfolding b_def n_def by linarith+
  have n: "nat (b + 1) = Suc n" "nat (b + 2) = Suc (Suc n)"
    "nat (b + 3) = Suc (Suc (Suc n))" "nat (b + 4) = Suc (Suc (Suc (Suc n)))"
    using b0 unfolding n_def by linarith+
  have s0: "setByte buf b v = buf[n := word_of_int v]" for v
    using b0 r by (simp add: setByte_update n_def)
  have s1: "setByte xs (b + 1) v = xs[Suc n := word_of_int v]" if "length xs = length buf" for xs v
    using b0 r that by (simp add: setByte_update n)
  have s2: "setByte xs (b + 2) v = xs[Suc (Suc n) := word_of_int v]" if "length xs = length buf" for xs v
    using b0 r that by (simp add: setByte_update n)
  have s3: "setByte xs (b + 3) v = xs[Suc (Suc (Suc n)) := word_of_int v]" if "length xs = length buf" for xs v
    using b0 r that by (simp add: setByte_update n)
  have s4: "setByte xs (b + 4) v = xs[Suc (Suc (Suc (Suc n))) := word_of_int v]" if "length xs = length buf" for xs v
    using b0 r that by (simp add: setByte_update n)
  have five: "n + 5 = Suc (Suc (Suc (Suc (Suc n))))" by simp
  have "drawGlyph x y c (font (of_char ch)) (ind, buf) =
      (b + 4, buf[n := word_of_int (glyphColumn (font (of_char ch)) 0),
                  Suc n := word_of_int (glyphColumn (font (of_char ch)) 1),
                  Suc (Suc n) := word_of_int (glyphColumn (font (of_char ch)) 2),
                  Suc (Suc (Suc n)) := word_of_int (glyphColumn (font (of_char ch)) 3),
                  Suc (Suc (Suc (Suc n))) := word_of_int (glyphColumn (font (of_char ch)) 4)])"
    unfolding drawGlyph_unfold b_def [symmetric]
    by (simp add: s0 s1 s2 s3 s4)
  also have "\<dots> = (b + 4, take n buf @ glyphBytes ch @ drop (n + 5) buf)"
    unfolding five update_block5 [OF r] by (simp add: glyphBytes_def upto_0_4)
  finally show ?thesis unfolding b_def n_def .
qed

lemma drawString_block:
  "0 \<le> (x + c) * 5 + y * 128 + 1 \<Longrightarrow>
   (x + c) * 5 + y * 128 + 1 + 5 * int (length str) \<le> int (length buf) \<Longrightarrow>
   drawString x y c str (ind, buf) =
     (if str = [] then ind else (x + c) * 5 + y * 128 + 5 * int (length str),
      take (nat ((x + c) * 5 + y * 128 + 1)) buf @ concat (map glyphBytes str)
        @ drop (nat ((x + c) * 5 + y * 128 + 1) + 5 * length str) buf)"
proof (induction str arbitrary: c ind buf)
  case Nil
  then show ?case by simp
next
  case (Cons ch str)
  define b where "b = (x + c) * 5 + y * 128 + 1"
  define n where "n = nat b"
  define buf1 where "buf1 = take n buf @ glyphBytes ch @ drop (n + 5) buf"
  have b0: "0 \<le> b" using Cons.prems(1) by (simp add: b_def)
  have r: "n + 5 + 5 * length str \<le> length buf"
    using Cons.prems unfolding b_def [symmetric] n_def by simp
  have g: "drawGlyph x y c (font (of_char ch)) (ind, buf) = (b + 4, buf1)"
    unfolding b_def n_def buf1_def
    by (rule drawGlyph_block) (use Cons.prems in simp_all)
  have len1: "length buf1 = length buf" using r by (simp add: buf1_def)
  have b1: "(x + (c + 1)) * 5 + y * 128 + 1 = b + 5" by (simp add: b_def algebra_simps)
  have n1: "nat (b + 5) = n + 5" using b0 unfolding n_def by linarith
  have ih: "drawString x y (c + 1) str (b + 4, buf1) =
     (if str = [] then b + 4 else (x + (c + 1)) * 5 + y * 128 + 5 * int (length str),
      take (nat ((x + (c + 1)) * 5 + y * 128 + 1)) buf1 @ concat (map glyphBytes str)
        @ drop (nat ((x + (c + 1)) * 5 + y * 128 + 1) + 5 * length str) buf1)"
  proof (rule Cons.IH)
    show "0 \<le> (x + (c + 1)) * 5 + y * 128 + 1" unfolding b1 using b0 by simp
    show "(x + (c + 1)) * 5 + y * 128 + 1 + 5 * int (length str) \<le> int (length buf1)"
      unfolding b1 len1 using Cons.prems(2) unfolding b_def [symmetric] by simp
  qed
  have t: "take (n + 5) buf1 = take n buf @ glyphBytes ch"
    using r by (simp add: buf1_def)
  have d: "drop (n + 5 + 5 * length str) buf1 = drop (n + 5 * length (ch # str)) buf"
    using r by (simp add: buf1_def ac_simps)
  have idx: "(x + (c + 1)) * 5 + y * 128 + 5 * int (length str)
      = (x + c) * 5 + y * 128 + 5 * int (length (ch # str))"
    by (simp add: algebra_simps)
  have idx1: "b + 4 = (x + c) * 5 + y * 128 + 5 * int (length [ch])"
    by (simp add: b_def)
  have "drawString x y c (ch # str) (ind, buf) = drawString x y (c + 1) str (b + 4, buf1)"
    by (simp add: g)
  also have "\<dots> = ((x + c) * 5 + y * 128 + 5 * int (length (ch # str)),
      take n buf @ glyphBytes ch @ concat (map glyphBytes str)
        @ drop (n + 5 * length (ch # str)) buf)"
    unfolding ih b1 n1 t d idx using idx1 by (cases str) simp_all
  finally show ?case unfolding n_def b_def by simp
qed

lemma hello_glyphs:
  "concat (map glyphBytes ''HELLO '') =
     [62, 8, 8, 62, 0, 62, 42, 42, 34, 0, 62, 32, 32, 32, 0, 62, 32, 32, 32, 0,
      28, 34, 34, 28, 0, 0, 0, 0, 0, 0]"
  by code_simp

lemma set_pos_bus:
  "bus (set_pos col page s) =
     bus s @ [(displayAddress s, [0, word_of_int (0xb0 OR page)]),
              (displayAddress s, [0, word_of_int (0x00 OR jsRem col 16)]),
              (displayAddress s, [0, word_of_int (0x10 OR shr col 4)])]"
  by (simp add: set_pos_def writeOneByte_def i2cWriteBuffer_def)

lemma show_hello_render:
  assumes "initialised s \<noteq> 0" "length (screenBuf s) = 1025"
  shows "show dev ''HELLO'' (Some 1) (Some Left) screen s =
           snd (renderLine ''HELLO '' (0, 0, 0) (s\<lparr>displayAddress := setScreenAddr screen\<rparr>))"
proof -
  have one: "splitLines (''HELLO'' @ '' '') (showRow (Some 1)) = [''HELLO '']"
    by (simp add: splitLines_def NUMBER_OF_CHAR_PER_LINE_def)
  have x: "alignX ''HELLO '' Left ''HELLO '' 0 0 = 0"
    by (simp add: alignX_def NUMBER_OF_CHAR_PER_LINE_def)
  have row: "showRow (Some 1) = 0" by (simp add: showRow_def)
  show ?thesis
    using assms(1) unfolding show_def Let_def one showLoop_single
    by (simp add: showLine_def x row)
qed

lemma renderLine_hello:
  assumes "length (screenBuf s) = 1025"
  shows "screenBuf (snd (renderLine ''HELLO '' (0, 0, 0) s)) =
           take 1 (screenBuf s) @ concat (map glyphBytes ''HELLO '') @ drop 31 (screenBuf s)"
    and "bus (snd (renderLine ''HELLO '' (0, 0, 0) s)) =
           bus s @ [(displayAddress s, [0, 0xB0]), (displayAddress s, [0, 0x00]),
                    (displayAddress s, [0, 0x10]),
                    (displayAddress s, 0x40 # concat (map glyphBytes ''HELLO ''))]"
proof -
  define G where "G = concat (map glyphBytes ''HELLO '')"
  define hs where "hs = ''HELLO ''"
  have l: "length G = 30" by (simp add: G_def hello_glyphs)
  have d: "drawString 0 0 0 hs (0, screenBuf s) =
      (30, take 1 (screenBuf s) @ G @ drop 31 (screenBuf s))"
    using drawString_block [of 0 0 0 "''HELLO ''" "screenBuf s" 0] assms
    unfolding G_def hs_def by simp
  have sl: "bufSlice (take (Suc 0) (screenBuf s) @ G @ drop 31 (screenBuf s)) 0 31
      = take (Suc 0) (screenBuf s) @ G"
    using assms l by (simp add: bufSlice_def)
  obtain b0 rest where b: "screenBuf s = b0 # rest" using assms by (cases "screenBuf s") auto
  have m: "setByte (take (Suc 0) (screenBuf s) @ G) 0 0x40 = 0x40 # G"
    by (simp add: b setByte_def)
  have "screenBuf (snd (renderLine hs (0, 0, 0) s)) = take 1 (screenBuf s) @ G @ drop 31 (screenBuf s)"
    by (simp add: renderLine_def d Let_def)
  then show "screenBuf (snd (renderLine ''HELLO '' (0, 0, 0) s)) =
           take 1 (screenBuf s) @ concat (map glyphBytes ''HELLO '') @ drop 31 (screenBuf s)"
    unfolding G_def hs_def .
  have "bus (snd (renderLine hs (0, 0, 0) s)) =
           bus s @ [(displayAddress s, [0, 0xB0]), (displayAddress s, [0, 0x00]),
                    (displayAddress s, [0, 0x10]), (displayAddress s, 0x40 # G)]"
    by (simp add: renderLine_def d Let_def sl m set_pos_bus jsRem_def shr_def toInt32_def)
  then show "bus (snd (renderLine ''HELLO '' (0, 0, 0) s)) =
           bus s @ [(displayAddress s, [0, 0xB0]), (displayAddress s, [0, 0x00]),
                    (displayAddress s, [0, 0x10]),
                    (displayAddress s, 0x40 # concat (map glyphBytes ''HELLO ''))]"
    unfolding G_def hs_def .
qed

lemma clear_initialised:
  "initialised (clear dev screen s) =
     (if initialised s = 0 \<and> \<not> dev DISPLAY_ADDR_1 then 0
      else if initialised s = 0 then 1 else initialised s)"
  by (simp add: clear_def Let_def initDisplay_def setScreenAddr_def)

lemma length_clear: "length (screenBuf (clear dev screen s)) = length (screenBuf s)"
  by (simp add: clear_def Let_def)

text \<open>
  C7 (as amended). On a display that is already initialised, \<open>show("HELLO", 1, Left)\<close>
  sends the three cursor commands and then exactly one bulk write: the marker 0x40 followed
  by the 30 bytes of frame-buffer columns 0 to 29 of page 0, that is six glyphs of five
  columns each, the glyph of the appended space included.
\<close>

theorem show_hello_bus:
  assumes "initialised s \<noteq> 0" and "length (screenBuf s) = 1025"
  shows "bus (show dev ''HELLO'' (Some 1) (Some Left) screen s) =
           bus s @ [(setScreenAddr screen, [0, 0xB0]), (setScreenAddr screen, [0, 0x00]),
                    (setScreenAddr screen, [0, 0x10]),
                    (setScreenAddr screen,
                      [0x40, 62, 8, 8, 62, 0, 62, 42, 42, 34, 0, 62, 32, 32, 32, 0,
                       62, 32, 32, 32, 0, 28, 34, 34, 28, 0, 0, 0, 0, 0, 0])]
       \<and> take 30 (drop 1 (screenBuf (show dev ''HELLO'' (Some 1) (Some Left) screen s))) =
           [62, 8, 8, 62, 0, 62, 42, 42, 34, 0, 62, 32, 32, 32, 0,
            62, 32, 32, 32, 0, 28, 34, 34, 28, 0, 0, 0, 0, 0, 0]"
proof -
  let ?s = "s\<lparr>displayAddress := setScreenAddr screen\<rparr>"
  have l: "length (screenBuf ?s) = 1025" using assms(2) by simp
  obtain b0 rest where b: "screenBuf s = b0 # rest" using assms(2) by (cases "screenBuf s") auto
  show ?thesis
    unfolding show_hello_render [OF assms] renderLine_hello [OF l] hello_glyphs
    by (simp add: b)
qed

theorem show_hello_bus_witness:
  "initialised (clear (\<lambda>_. True) None initial_display) \<noteq> 0
   \<and> length (screenBuf (clear (\<lambda>_. True) None initial_display)) = 1025
   \<and> take 30 (drop 1 (screenBuf (show (\<lambda>_. True) ''HELLO'' (Some 1) (Some Left) None
                                   (clear (\<lambda>_. True) None initial_display)))) =
           [62, 8, 8, 62, 0, 62, 42, 42, 34, 0, 62, 32, 32, 32, 0,
            62, 32, 32, 32, 0, 28, 34, 34, 28, 0, 0, 0, 0, 0, 0]"
proof -
  have i: "initialised (clear (\<lambda>_. True) None initial_display) \<noteq> 0"
    by (simp add: clear_initialised initial_display_def)
  have l: "length (screenBuf (clear (\<lambda>_. True) None initial_display)) = 1025"
    by (simp add: length_clear initial_display_def)
  from show_hello_bus [OF i l, of "\<lambda>_. True" None] i l show ?thesis by blast
qed

text \<open>
  The claim as written fails on the payload: after \<open>clear()\<close> on the fresh display, the
  bulk write of \<open>show("HELLO", 1, Left)\<close> has 31 bytes, the marker and 30 column bytes
  (columns 0 to 29), not the 25 bytes of columns 0 to 24.
\<close>

theorem show_hello_bus_counterexample:
  "length (snd (last (bus (show (\<lambda>_. True) ''HELLO'' (Some 1) (Some Left) None
                            (clear (\<lambda>_. True) None initial_display))))) = 31"
proof -
  let ?c = "clear (\<lambda>_. True) None initial_display"
  have i: "initialised ?c \<noteq> 0"
    by (simp add: clear_initialised initial_display_def)
  have l: "length (screenBuf (?c\<lparr>displayAddress := setScreenAddr None\<rparr>)) = 1025"
    by (simp add: length_clear initial_display_def)
  have l': "length (screenBuf ?c) = 1025"
    by (simp add: length_clear initial_display_def)
  show ?thesis
    unfolding show_hello_render [OF i l'] renderLine_hello(2) [OF l] hello_glyphs
    by simp
qed

section \<open>Lazy initialisation happens once\<close>

lemma quiet_refl [simp]: "quietStep s s"
  by (simp add: quietStep_def)

lemma quiet_trans: "quietStep s s' \<Longrightarrow> quietStep s' s'' \<Longrightarrow> quietStep s s''"
  by (auto simp: quietStep_def)

lemma quiet_write:
  "\<not> multiByteCommand (displayAddress s, buf) \<Longrightarrow> quietStep s (i2cWriteBuffer buf s)"
  by (simp add: quietStep_def)

lemma quiet_writeOneByte: "quietStep s (writeOneByte v s)"
  unfolding writeOneByte_def by (rule quiet_write) (simp add: multiByteCommand_def)

lemma quiet_set_pos: "quietStep s (set_pos col page s)"
  unfolding set_pos_def
  by (rule quiet_trans [OF quiet_writeOneByte quiet_trans [OF quiet_writeOneByte quiet_writeOneByte]])

lemma quiet_address: "quietStep s (s\<lparr>displayAddress := a\<rparr>)"
  by (simp add: quietStep_def)

lemma quiet_screenBuf: "length b = length (screenBuf s) \<Longrightarrow> quietStep s (s\<lparr>screenBuf := b\<rparr>)"
  by (simp add: quietStep_def)

lemma quiet_data2: "quietStep s (i2cWriteBuffer [a, b] s)"
  by (rule quiet_write) (simp add: multiByteCommand_def)

lemma quiet_whole:
  "length (screenBuf s) = 1025 \<Longrightarrow> quietStep s (i2cWriteBuffer (screenBuf s) s)"
proof (rule quiet_write)
  assume l: "length (screenBuf s) = 1025"
  then obtain b0 b1 b2 b3 b4 rest where "screenBuf s = b0 # b1 # b2 # b3 # b4 # rest"
    by (cases "screenBuf s"; simp; rename_tac a1 l1; case_tac l1; simp; rename_tac a2 l2; case_tac l2; simp;
        rename_tac a3 l3; case_tac l3; simp; rename_tac a4 l4; case_tac l4; simp)
  then show "\<not> multiByteCommand (displayAddress s, screenBuf s)"
    by (simp add: multiByteCommand_def)
qed

lemma quiet_marked: "quietStep s (i2cWriteBuffer (setByte buf 0 0x40) s)"
proof (rule quiet_write)
  show "\<not> multiByteCommand (displayAddress s, setByte buf 0 0x40)"
    by (cases buf) (auto simp: multiByteCommand_def setByte_def split: list.splits)
qed

lemma quiet_setPixel:
  assumes "initialised s \<noteq> 0"
  shows "quietStep s (setPixel dev x y screen s)"
proof -
  let ?s1 = "s\<lparr>displayAddress := setScreenAddr screen\<rparr>"
  let ?i = "x + shr y 3 * 128 + 1"
  let ?v = "getByte (screenBuf s) ?i OR shl1 (jsRem y 8)"
  let ?s2 = "?s1\<lparr>screenBuf := setByte (screenBuf s) ?i ?v\<rparr>"
  have e: "setPixel dev x y screen s =
      i2cWriteBuffer [0x40, word_of_int ?v] (set_pos x (shr y 3) ?s2)"
    using assms by (simp add: setPixel_def Let_def)
  have q1: "quietStep s ?s1" by (rule quiet_address)
  have q2: "quietStep ?s1 ?s2" by (rule quiet_screenBuf) simp
  have q3: "quietStep ?s2 (set_pos x (shr y 3) ?s2)" by (rule quiet_set_pos)
  have q4: "quietStep (set_pos x (shr y 3) ?s2)
      (i2cWriteBuffer [0x40, word_of_int ?v] (set_pos x (shr y 3) ?s2))" by (rule quiet_data2)
  show ?thesis unfolding e
    by (rule quiet_trans [OF q1 quiet_trans [OF q2 quiet_trans [OF q3 q4]]])
qed

lemma quiet_clearPixel:
  assumes "initialised s \<noteq> 0"
  shows "quietStep s (clearPixel dev x y screen s)"
proof -
  let ?s1 = "s\<lparr>displayAddress := setScreenAddr screen\<rparr>"
  let ?i = "x + shr y 3 * 128 + 1"
  let ?v = "clearBit (getByte (screenBuf s) ?i) (jsRem y 8)"
  let ?s2 = "?s1\<lparr>screenBuf := setByte (screenBuf s) ?i ?v\<rparr>"
  have e: "clearPixel dev x y screen s =
      i2cWriteBuffer [0x40, word_of_int ?v] (set_pos x (shr y 3) ?s2)"
    using assms by (simp add: clearPixel_def Let_def)
  have q1: "quietStep s ?s1" by (rule quiet_address)
  have q2: "quietStep ?s1 ?s2" by (rule quiet_screenBuf) simp
  have q3: "quietStep ?s2 (set_pos x (shr y 3) ?s2)" by (rule quiet_set_pos)
  have q4: "quietStep (set_pos x (shr y 3) ?s2)
      (i2cWriteBuffer [0x40, word_of_int ?v] (set_pos x (shr y 3) ?s2))" by (rule quiet_data2)
  show ?thesis unfolding e
    by (rule quiet_trans [OF q1 quiet_trans [OF q2 quiet_trans [OF q3 q4]]])
qed

lemma quiet_initialised: "quietStep s s' \<Longrightarrow> initialised s' = initialised s"
  by (simp add: quietStep_def)

lemma quiet_length: "quietStep s s' \<Longrightarrow> length (screenBuf s') = length (screenBuf s)"
  by (simp add: quietStep_def)

lemma quiet_hLineLoop:
  "initialised s \<noteq> 0 \<Longrightarrow> quietStep s (hLineLoop dev hPixel stop y screen s)"
proof (induction dev hPixel stop y screen s rule: hLineLoop.induct)
  case (1 dev hPixel stop y screen s)
  show ?case
  proof (cases "hPixel < stop")
    case True
    have q: "quietStep s (setPixel dev hPixel y screen s)" by (rule quiet_setPixel [OF "1.prems"])
    then have "initialised (setPixel dev hPixel y screen s) \<noteq> 0"
      using "1.prems" by (simp add: quiet_initialised)
    from "1.IH" [OF True this] q show ?thesis
      by (subst hLineLoop.simps) (simp add: True quiet_trans [OF q])
  next
    case False
    then show ?thesis by (subst hLineLoop.simps) simp
  qed
qed

lemma quiet_vLineLoop:
  "initialised s \<noteq> 0 \<Longrightarrow> quietStep s (vLineLoop dev vPixel stop x screen s)"
proof (induction dev vPixel stop x screen s rule: vLineLoop.induct)
  case (1 dev vPixel stop x screen s)
  show ?case
  proof (cases "vPixel < stop")
    case True
    have q: "quietStep s (setPixel dev x vPixel screen s)" by (rule quiet_setPixel [OF "1.prems"])
    then have "initialised (setPixel dev x vPixel screen s) \<noteq> 0"
      using "1.prems" by (simp add: quiet_initialised)
    from "1.IH" [OF True this] q show ?thesis
      by (subst vLineLoop.simps) (simp add: True quiet_trans [OF q])
  next
    case False
    then show ?thesis by (subst vLineLoop.simps) simp
  qed
qed

lemma quiet_drawLine:
  "initialised s \<noteq> 0 \<Longrightarrow> quietStep s (drawLine dev lineDirection len x y screen s)"
  by (cases lineDirection) (simp_all add: drawLine_def Let_def quiet_hLineLoop quiet_vLineLoop)

lemma quiet_drawRect:
  assumes "initialised s \<noteq> 0"
  shows "quietStep s (drawRect dev width height x y screen s)"
proof -
  let ?s1 = "drawLine dev horizontal width x y screen s"
  let ?s2 = "drawLine dev horizontal width x ((y + height) - 1) screen ?s1"
  let ?s3 = "drawLine dev vertical height x y screen ?s2"
  let ?s4 = "drawLine dev vertical height ((x + width) - 1) y screen ?s3"
  have q1: "quietStep s ?s1" by (rule quiet_drawLine [OF assms])
  then have i1: "initialised ?s1 \<noteq> 0" using assms by (simp add: quiet_initialised)
  have q2: "quietStep ?s1 ?s2" by (rule quiet_drawLine [OF i1])
  then have i2: "initialised ?s2 \<noteq> 0" using i1 by (simp add: quiet_initialised)
  have q3: "quietStep ?s2 ?s3" by (rule quiet_drawLine [OF i2])
  then have i3: "initialised ?s3 \<noteq> 0" using i2 by (simp add: quiet_initialised)
  have q4: "quietStep ?s3 ?s4" by (rule quiet_drawLine [OF i3])
  have "drawRect dev width height x y screen s = ?s4" by (simp add: drawRect_def Let_def)
  then show ?thesis
    using quiet_trans [OF q1 quiet_trans [OF q2 quiet_trans [OF q3 q4]]] by simp
qed

lemma length_drawGlyph: "length (snd (drawGlyph x y c bytes st)) = length (snd st)"
  by (cases st) (simp add: drawGlyph_unfold)

lemma length_drawString: "length (snd (drawString x y c str st)) = length (snd st)"
  by (induction str arbitrary: c st) (simp_all add: length_drawGlyph)

lemma quiet_renderLine: "quietStep s (snd (renderLine displayString xyi s))"
proof -
  obtain x y ind where xyi: "xyi = (x, y, ind)" by (cases xyi) auto
  obtain ind' buf where d: "drawString x y 0 displayString (ind, screenBuf s) = (ind', buf)"
    by (cases "drawString x y 0 displayString (ind, screenBuf s)") auto
  have l: "length buf = length (screenBuf s)"
    using length_drawString [of x y 0 displayString "(ind, screenBuf s)"] by (simp add: d)
  let ?s1 = "s\<lparr>screenBuf := buf\<rparr>"
  let ?s2 = "set_pos (x * 5) y ?s1"
  let ?b2 = "setByte (bufSlice buf (x * 5 + y * 128) (ind' + 1)) 0 0x40"
  have e: "snd (renderLine displayString xyi s) = i2cWriteBuffer ?b2 ?s2"
    by (simp add: renderLine_def xyi d Let_def)
  have q1: "quietStep s ?s1" by (rule quiet_screenBuf [OF l])
  have q2: "quietStep ?s1 ?s2" by (rule quiet_set_pos)
  have q3: "quietStep ?s2 (i2cWriteBuffer ?b2 ?s2)" by (rule quiet_marked)
  show ?thesis unfolding e by (rule quiet_trans [OF q1 quiet_trans [OF q2 q3]])
qed

lemma quiet_showLoop: "quietStep s (showLoop inputString a ls textLine xyi s)"
proof (induction ls arbitrary: textLine xyi s)
  case Nil
  then show ?case by simp
next
  case (Cons l ls)
  obtain x y ind where xyi: "xyi = (x, y, ind)" by (cases xyi) auto
  obtain xyi' s' where r: "showLine inputString a l textLine xyi s = (xyi', s')"
    by (cases "showLine inputString a l textLine xyi s") auto
  have "s' = snd (renderLine l (alignX inputString a l textLine x, y, ind) s)"
    using r by (simp add: showLine_def xyi)
  then have q: "quietStep s s'" by (simp add: quiet_renderLine)
  show ?case
    using quiet_trans [OF q Cons.IH [of s' "textLine + 1" xyi']] by (simp add: r)
qed

lemma quiet_show:
  assumes "initialised s \<noteq> 0"
  shows "quietStep s (show dev inputData line displayShowAlign screen s)"
proof -
  let ?s1 = "s\<lparr>displayAddress := setScreenAddr screen\<rparr>"
  have q1: "quietStep s ?s1" by (rule quiet_address)
  show ?thesis
    using assms quiet_trans [OF q1 quiet_showLoop]
    by (simp add: show_def Let_def)
qed

lemma quiet_clearLine:
  assumes "initialised s \<noteq> 0"
  shows "quietStep s (clearLine dev line screen s)"
proof -
  let ?s1 = "s\<lparr>displayAddress := setScreenAddr screen\<rparr>"
  have q1: "quietStep s ?s1" by (rule quiet_address)
  have i: "initialised ?s1 \<noteq> 0" using assms by simp
  show ?thesis
    using assms quiet_trans [OF q1 quiet_show [OF i]]
    by (simp add: clearLine_def Let_def)
qed

lemma quiet_clearScreen: "quietStep s (clearScreen s)"
proof -
  let ?b = "setByte (replicate (length (screenBuf s)) 0) 0 0x40"
  let ?s1 = "s\<lparr>screenBuf := ?b\<rparr>"
  let ?s2 = "set_pos 0 0 ?s1"
  have e: "clearScreen s = i2cWriteBuffer ?b ?s2"
    by (simp add: clearScreen_def Let_def)
  have q1: "quietStep s ?s1" by (rule quiet_screenBuf) simp
  have q2: "quietStep ?s1 ?s2" by (rule quiet_set_pos)
  have q3: "quietStep ?s2 (i2cWriteBuffer ?b ?s2)" by (rule quiet_marked)
  show ?thesis unfolding e by (rule quiet_trans [OF q1 quiet_trans [OF q2 q3]])
qed

lemma quiet_clear:
  assumes "initialised s \<noteq> 0"
  shows "quietStep s (clear dev screen s)"
proof -
  let ?s1 = "s\<lparr>displayAddress := setScreenAddr screen\<rparr>"
  have q1: "quietStep s ?s1" by (rule quiet_address)
  show ?thesis
    using assms quiet_trans [OF q1 quiet_clearScreen]
    by (simp add: clear_def Let_def)
qed

lemma quiet_refresh:
  assumes "initialised s \<noteq> 0" "length (screenBuf s) = 1025"
  shows "quietStep s (refresh dev screen s)"
proof -
  let ?s1 = "s\<lparr>displayAddress := setScreenAddr screen\<rparr>"
  let ?s2 = "set_pos 0 0 ?s1"
  have e: "refresh dev screen s = i2cWriteBuffer (screenBuf ?s2) ?s2"
    using assms(1) by (simp add: refresh_def Let_def)
  have q1: "quietStep s ?s1" by (rule quiet_address)
  have q2: "quietStep ?s1 ?s2" by (rule quiet_set_pos)
  have q3: "quietStep ?s2 (i2cWriteBuffer (screenBuf ?s2) ?s2)"
    by (rule quiet_whole) (simp add: assms(2))
  show ?thesis unfolding e by (rule quiet_trans [OF q1 quiet_trans [OF q2 q3]])
qed

lemma quiet_controlDisplayOnOff:
  assumes "initialised s \<noteq> 0"
  shows "quietStep s (controlDisplayOnOff dev displayOutput screen s)"
proof -
  let ?s1 = "s\<lparr>displayAddress := setScreenAddr screen\<rparr>"
  have q1: "quietStep s ?s1" by (rule quiet_address)
  show ?thesis
    using assms quiet_trans [OF q1 quiet_writeOneByte]
    by (simp add: controlDisplayOnOff_def Let_def)
qed

lemma quiet_invert:
  assumes "initialised s \<noteq> 0"
  shows "quietStep s (invert dev output screen s)"
proof -
  let ?s1 = "s\<lparr>displayAddress := setScreenAddr screen\<rparr>"
  have q1: "quietStep s ?s1" by (rule quiet_address)
  show ?thesis
    using assms quiet_trans [OF q1 quiet_writeOneByte]
    by (simp add: invert_def Let_def)
qed

lemma quiet_plotLoop: "plotLoop i n s = Some s' \<Longrightarrow> quietStep s s'"
  using plotLoop_fields [of i n s s'] by (simp add: quietStep_def)

lemma quiet_plot:
  assumes "initialised s \<noteq> 0" "length (screenBuf s) = 1025"
    and "plot dev plotVariable screen s = Some s'"
  shows "quietStep s s'"
proof -
  let ?r = "plotRecorded dev plotVariable screen s"
  from assms(3) obtain s6 where l: "plotLoop 0 (length (plotArray s)) ?r = Some s6"
    and s': "s' = refresh dev None s6"
    unfolding plot_by_parts by auto
  have q5: "quietStep s ?r" using assms(1) by (simp add: quietStep_def plotRecorded_def Let_def)
  have q6: "quietStep ?r s6" by (rule quiet_plotLoop [OF l])
  have q: "quietStep s s6" by (rule quiet_trans [OF q5 q6])
  have i: "initialised s6 \<noteq> 0" using assms(1) quiet_initialised [OF q] by simp
  have l: "length (screenBuf s6) = 1025" using assms(2) quiet_length [OF q] by simp
  show ?thesis unfolding s' by (rule quiet_trans [OF q quiet_refresh [OF i l]])
qed

lemma quiet_run:
  assumes "initialised s \<noteq> 0" "length (screenBuf s) = 1025" "\<forall>screen. c \<noteq> InitDisplay screen"
    and "run dev c s = Some s'"
  shows "quietStep s s'"
proof (cases c)
  case (Plot v screen)
  show ?thesis by (rule quiet_plot [OF assms(1,2)]) (use assms(4) Plot in simp)
qed (use assms in \<open>auto simp: quiet_setPixel quiet_clearPixel quiet_show quiet_clearLine
      quiet_drawLine quiet_drawRect quiet_clear quiet_controlDisplayOnOff quiet_refresh
      quiet_invert\<close>)

lemma quiet_runs:
  "initialised s \<noteq> 0 \<Longrightarrow> length (screenBuf s) = 1025 \<Longrightarrow>
   \<forall>c \<in> set cs. \<forall>screen. c \<noteq> InitDisplay screen \<Longrightarrow>
   runs dev cs s = Some s' \<Longrightarrow> quietStep s s'"
proof (induction cs arbitrary: s)
  case Nil
  then show ?case by simp
next
  case (Cons c cs)
  from Cons.prems(4) obtain s1 where r: "run dev c s = Some s1" and rs: "runs dev cs s1 = Some s'"
    by (auto split: option.splits)
  have q: "quietStep s s1"
    by (rule quiet_run [OF Cons.prems(1,2) _ r]) (use Cons.prems(3) in simp)
  have i: "initialised s1 \<noteq> 0" using Cons.prems(1) quiet_initialised [OF q] by simp
  have l: "length (screenBuf s1) = 1025" using Cons.prems(2) quiet_length [OF q] by simp
  have "quietStep s1 s'"
    by (rule Cons.IH [OF i l _ rs]) (use Cons.prems(3) in simp)
  from quiet_trans [OF q this] show ?case .
qed

lemma initSequence_has_multiByte: "list_ex multiByteCommand (initSequence a)"
  by (simp add: initSequence_def initCommands_def writeOneByte_def writeTwoByte_def
      writeThreeByte_def i2cWriteBuffer_def initial_display_def multiByteCommand_def)

lemma initCommands_bus: "bus (initCommands s) = bus s @ initSequence (displayAddress s)"
  by (simp add: initSequence_def initCommands_def writeOneByte_def writeTwoByte_def
      writeThreeByte_def i2cWriteBuffer_def initial_display_def)

lemma quiet_no_initSequence:
  assumes "list_all (\<lambda>w. \<not> multiByteCommand w) ws"
  shows "\<not> (\<exists>pre post. ws = pre @ initSequence a @ post)"
proof
  assume "\<exists>pre post. ws = pre @ initSequence a @ post"
  then obtain pre post where ws: "ws = pre @ initSequence a @ post" by blast
  from initSequence_has_multiByte [of a] obtain w
    where w: "w \<in> set (initSequence a)" "multiByteCommand w"
    by (auto simp: list_ex_iff)
  from w(1) have "w \<in> set ws" by (simp add: ws)
  with assms w(2) show False by (auto simp: list_all_iff)
qed

lemma initDisplay_bus:
  assumes "dev (setScreenAddr screen)"
  shows "\<exists>post. bus (initDisplay dev screen s) =
           bus s @ [(setScreenAddr screen, [0, 0xAF])] @ initSequence (setScreenAddr screen) @ post"
proof -
  let ?s1 = "i2cWriteBuffer [0, 0xAF] (s\<lparr>displayAddress := setScreenAddr screen\<rparr>)"
  let ?s2 = "(initCommands ?s1)\<lparr>initialised := 1, displayAddress := setScreenAddr None\<rparr>"
  have e: "initDisplay dev screen s = clearScreen ?s2"
    using assms by (simp add: initDisplay_def Let_def)
  have b2: "bus ?s2 = bus s @ [(setScreenAddr screen, [0, 0xAF])] @ initSequence (setScreenAddr screen)"
    by (simp add: initCommands_bus)
  obtain ws where "bus (clearScreen ?s2) = bus ?s2 @ ws"
    using quiet_clearScreen [of ?s2] by (auto simp: quietStep_def)
  then show ?thesis unfolding e b2 by simp
qed

section \<open>Arithmetic on doubles\<close>

lemma roundToDouble_0 [simp]: "roundToDouble 0 = 0"
  using roundToDouble_of_int [of 0] by simp

lemma roundToDouble_numeral:
  "numeral k \<le> (2 ^ 53 :: int) \<Longrightarrow> roundToDouble (numeral k) = numeral k"
  using roundToDouble_of_int [of "numeral k"] by simp

lemma roundToDouble_neg_numeral:
  "numeral k \<le> (2 ^ 53 :: int) \<Longrightarrow> roundToDouble (- numeral k) = - numeral k"
  using roundToDouble_of_int [of "- numeral k"] by simp

lemma roundToDouble_1 [simp]: "roundToDouble 1 = 1"
  using roundToDouble_of_int [of 1] by simp

lemma pow2_1024_large: "(2 ^ 53 :: rat) < 2 powi 1024"
proof -
  have "(2::rat) powi 53 < 2 powi 1024" by (rule power_int_strict_increasing) simp_all
  then show ?thesis by simp
qed

lemma toDouble_bounded:
  assumes "of_int a \<le> x" "x \<le> of_int b" "\<bar>a\<bar> \<le> 2 ^ 53" "\<bar>b\<bar> \<le> 2 ^ 53"
  shows "toDouble x = Finite (roundToDouble x)"
    and "of_int a \<le> roundToDouble x" and "roundToDouble x \<le> of_int b"
proof -
  show lo: "of_int a \<le> roundToDouble x"
    using roundToDouble_mono [OF assms(1)] roundToDouble_of_int [OF assms(3)] by simp
  show hi: "roundToDouble x \<le> of_int b"
    using roundToDouble_mono [OF assms(2)] roundToDouble_of_int [OF assms(4)] by simp
  have "(of_int b :: rat) \<le> of_int (2 ^ 53)" using assms(4) by (simp only: of_int_le_iff)
  then have b: "(of_int b :: rat) \<le> 2 ^ 53" by simp
  have "(of_int (- (2 ^ 53)) :: rat) \<le> of_int a" using assms(3) by (simp only: of_int_le_iff)
  then have a: "- (2 ^ 53) \<le> (of_int a :: rat)" by simp
  from lo hi a b pow2_1024_large
  have "roundToDouble x < 2 powi 1024" "- (2 powi 1024) < roundToDouble x" by linarith+
  then show "toDouble x = Finite (roundToDouble x)" by (simp add: toDouble_def Let_def)
qed

lemma toDouble_of_int: "\<bar>n\<bar> \<le> 2 ^ 53 \<Longrightarrow> toDouble (of_int n) = Finite (of_int n)"
  using toDouble_bounded(1) [of n "of_int n" n] roundToDouble_of_int [of n] by simp

lemma toDouble_numeral [simp]:
  "numeral k \<le> (2 ^ 53 :: int) \<Longrightarrow> toDouble (numeral k) = Finite (numeral k)"
  using toDouble_of_int [of "numeral k"] by simp

lemma toDouble_neg_numeral [simp]:
  "numeral k \<le> (2 ^ 53 :: int) \<Longrightarrow> toDouble (- numeral k) = Finite (- numeral k)"
  using toDouble_of_int [of "- numeral k"] by simp

lemma toDouble_0 [simp]: "toDouble 0 = Finite 0"
  using toDouble_of_int [of 0] by simp

lemma toDouble_1 [simp]: "toDouble 1 = Finite 1"
  using toDouble_of_int [of 1] by simp

lemma pow2_1024_pos: "(0::rat) < 2 powi 1024"
  by simp

lemma toDouble_nonneg:
  assumes "0 \<le> x"
  shows "toDouble x = PosInf \<or> (toDouble x = Finite (roundToDouble x) \<and> 0 \<le> roundToDouble x)"
proof -
  have r: "0 \<le> roundToDouble x" by (rule roundToDouble_nonneg [OF assms])
  with pow2_1024_pos have "\<not> roundToDouble x \<le> - (2 powi 1024)" by linarith
  with r show ?thesis by (simp add: toDouble_def Let_def)
qed

lemma toDouble_nonpos:
  assumes "x \<le> 0"
  shows "toDouble x = NegInf \<or> (toDouble x = Finite (roundToDouble x) \<and> roundToDouble x \<le> 0)"
proof -
  have "roundToDouble x \<le> roundToDouble 0" by (rule roundToDouble_mono [OF assms])
  then have r: "roundToDouble x \<le> 0" by simp
  with pow2_1024_pos have "\<not> 2 powi 1024 \<le> roundToDouble x" by linarith
  with r show ?thesis by (simp add: toDouble_def Let_def)
qed

lemma toDouble_PosInf_mono:
  assumes "x \<le> y" "toDouble x = PosInf"
  shows "toDouble y = PosInf"
proof -
  have "2 powi 1024 \<le> roundToDouble x"
    using assms(2) by (simp add: toDouble_def Let_def split: if_splits)
  with roundToDouble_mono [OF assms(1)] have "2 powi 1024 \<le> roundToDouble y" by linarith
  then show ?thesis by (simp add: toDouble_def Let_def)
qed

lemma toDouble_Finite_mono:
  assumes "x \<le> y" "toDouble x = Finite a" "toDouble y = Finite b"
  shows "a \<le> b"
proof -
  have "a = roundToDouble x" using assms(2) by (simp add: toDouble_def Let_def split: if_splits)
  moreover have "b = roundToDouble y" using assms(3) by (simp add: toDouble_def Let_def split: if_splits)
  ultimately show ?thesis using roundToDouble_mono [OF assms(1)] by simp
qed

lemma toDouble_not_NaN [simp]: "toDouble x \<noteq> NaN"
  by (simp add: toDouble_def Let_def)

section \<open>The mapped rows\<close>

lemma mapped_quotient:
  assumes "0 \<le> a" "a \<le> d" "100 \<le> d" "toDouble (a * - 43) = Finite m"
  shows "- 47 \<le> m / d \<and> m / d \<le> 0"
proof -
  have m: "m = roundToDouble (a * - 43)"
    using assms(4) by (simp add: toDouble_def Let_def split: if_splits)
  have "roundToDouble (a * - 43) \<le> roundToDouble 0"
    by (rule roundToDouble_mono) (use assms(1) in simp)
  then have hi: "m \<le> 0" by (simp add: m)
  have "\<bar>a * - 43\<bar> = 43 * a" using assms(1) by simp
  with roundToDouble_near [of "a * - 43"]
  have "\<bar>m - a * - 43\<bar> \<le> 43 * a / 1000 + 1 / 1000" by (simp add: m)
  then have "- (43 * a) - 43 * a / 1000 - 1 / 1000 \<le> m" by (simp add: abs_le_iff)
  then have lo: "- 47 * d \<le> m" using assms(2,3) by linarith
  have d: "0 < d" using assms(3) by linarith
  from lo hi d show ?thesis by (simp add: pos_le_divide_eq pos_divide_le_eq)
qed

lemma mapped_row_finite:
  assumes "0 \<le> a" "a \<le> d" "100 \<le> d" "toDouble (a * - 43) = Finite m"
  shows "\<exists>r. nadd (ndiv (Finite m) (Finite d)) (Finite 63) = Finite r \<and> 16 \<le> r \<and> r \<le> 63"
proof -
  from mapped_quotient [OF assms] have q: "of_int (- 47) \<le> m / d" "m / d \<le> of_int 0" by simp_all
  have d: "d \<noteq> 0" using assms(3) by auto
  define q' where "q' = roundToDouble (m / d)"
  have tq: "toDouble (m / d) = Finite q'" unfolding q'_def
    by (rule toDouble_bounded(1) [OF q]) simp_all
  have bq: "- 47 \<le> q'" "q' \<le> 0"
    using toDouble_bounded(2) [OF q] toDouble_bounded(3) [OF q] by (simp_all add: q'_def)
  then have s: "of_int 16 \<le> q' + 63" "q' + 63 \<le> of_int 63" by simp_all
  have tr: "toDouble (q' + 63) = Finite (roundToDouble (q' + 63))"
    by (rule toDouble_bounded(1) [OF s]) simp_all
  have br: "16 \<le> roundToDouble (q' + 63)" "roundToDouble (q' + 63) \<le> 63"
    using toDouble_bounded(2) [OF s] toDouble_bounded(3) [OF s] by simp_all
  show ?thesis using d tq tr br by simp
qed

lemma mapped_row_cases:
  assumes "0 \<le> n"
    and "D = PosInf \<or> (\<exists>d. D = Finite d \<and> 100 \<le> d \<and> (\<forall>a. toDouble n = Finite a \<longrightarrow> a \<le> d))"
    and "toDouble n = PosInf \<longrightarrow> D = PosInf"
  shows "inBand (nadd (ndiv (nmul (toDouble n) (Finite (- 43))) D) (Finite 63))"
proof -
  from toDouble_nonneg [OF assms(1)] show ?thesis
  proof
    assume A: "toDouble n = PosInf"
    with assms(3) have D: "D = PosInf" by simp
    show ?thesis by (simp add: A D numSign_def infinity_def inBand_def)
  next
    assume "toDouble n = Finite (roundToDouble n) \<and> 0 \<le> roundToDouble n"
    then obtain a where A: "toDouble n = Finite a" and a: "0 \<le> a" by blast
    have "a * - 43 \<le> 0" using a by simp
    from toDouble_nonpos [OF this] show ?thesis
    proof
      assume M: "toDouble (a * - 43) = NegInf"
      have P: "nmul (toDouble n) (Finite (- 43)) = NegInf" unfolding A nmul.simps(1) by (rule M)
      from assms(2) show ?thesis
      proof
        assume "D = PosInf"
        then show ?thesis by (simp add: P inBand_def)
      next
        assume "\<exists>d. D = Finite d \<and> 100 \<le> d \<and> (\<forall>a. toDouble n = Finite a \<longrightarrow> a \<le> d)"
        then obtain d where D: "D = Finite d" and d: "100 \<le> d" by blast
        have "\<not> d < 0" using d by simp
        then show ?thesis by (simp add: P D numSign_def infinity_def inBand_def)
      qed
    next
      assume "toDouble (a * - 43) = Finite (roundToDouble (a * - 43)) \<and> roundToDouble (a * - 43) \<le> 0"
      then obtain m where M: "toDouble (a * - 43) = Finite m" by blast
      have P: "nmul (toDouble n) (Finite (- 43)) = Finite m" unfolding A nmul.simps(1) by (rule M)
      from assms(2) show ?thesis
      proof
        assume "D = PosInf"
        then show ?thesis by (simp add: P inBand_def)
      next
        assume "\<exists>d. D = Finite d \<and> 100 \<le> d \<and> (\<forall>a. toDouble n = Finite a \<longrightarrow> a \<le> d)"
        then obtain d where D: "D = Finite d" and d: "100 \<le> d" and ad: "a \<le> d"
          using A by blast
        from mapped_row_finite [OF a ad d M] obtain r
          where "nadd (ndiv (Finite m) (Finite d)) (Finite 63) = Finite r" "16 \<le> r" "r \<le> 63"
          by blast
        then show ?thesis by (simp add: P D inBand_def)
      qed
    qed
  qed
qed

lemma pinsMap_band:
  assumes "v = NaN \<or> (nle lo v \<and> nle v hi)" and "nle lo (Finite 0)" and "nle (Finite 100) hi"
  shows "inBand (pinsMap v lo hi (Finite 63) (Finite 20))"
proof (cases v)
  case NaN
  then show ?thesis by (simp add: pinsMap_def inBand_def)
next
  case PosInf
  with assms(1) have hi: "hi = PosInf" by (cases hi) (simp_all add: nle_def)
  from assms(2) show ?thesis
    by (cases lo) (simp_all add: PosInf hi nle_def pinsMap_def inBand_def numSign_def infinity_def)
next
  case NegInf
  with assms(1) have lo: "lo = NegInf" by (cases lo) (simp_all add: nle_def)
  show ?thesis by (simp add: NegInf lo pinsMap_def inBand_def)
next
  case (Finite x)
  show ?thesis
  proof (cases lo)
    case NaN
    with assms(2) show ?thesis by (simp add: nle_def)
  next
    case PosInf
    with assms(2) show ?thesis by (simp add: nle_def)
  next
    case NegInf
    from assms(3) show ?thesis
      by (cases hi) (simp_all add: Finite NegInf nle_def pinsMap_def inBand_def numSign_def infinity_def)
  next
    case l: (Finite l)
    have lx: "l \<le> x" using assms(1) by (simp add: Finite l nle_def)
    then have n: "0 \<le> x - l" by simp
    have l0: "l \<le> 0" using assms(2) by (simp add: l nle_def)
    show ?thesis
    proof (cases hi)
      case NaN
      with assms(3) show ?thesis by (simp add: nle_def)
    next
      case NegInf
      with assms(3) show ?thesis by (simp add: nle_def)
    next
      case PosInf
      have "inBand (nadd (ndiv (nmul (toDouble (x - l)) (Finite (- 43))) PosInf) (Finite 63))"
        by (rule mapped_row_cases [OF n]) simp_all
      then show ?thesis by (simp add: Finite l PosInf pinsMap_def)
    next
      case h: (Finite h)
      have xh: "x \<le> h" using assms(1) by (simp add: Finite h nle_def)
      have h100: "100 \<le> h" using assms(3) by (simp add: h nle_def)
      have le: "x - l \<le> h - l" using xh by simp
      have nd: "0 \<le> h - l" using n le by linarith
      have c100: "100 \<le> h - l" using h100 l0 by linarith
      have D: "toDouble (h - l) = PosInf
          \<or> (\<exists>d. toDouble (h - l) = Finite d \<and> 100 \<le> d
                \<and> (\<forall>a. toDouble (x - l) = Finite a \<longrightarrow> a \<le> d))"
      proof (cases "toDouble (h - l) = PosInf")
        case False
        with toDouble_nonneg [OF nd] obtain d where d: "toDouble (h - l) = Finite d" by blast
        have "toDouble 100 = Finite 100" by simp
        from toDouble_Finite_mono [OF c100 this d] have "100 \<le> d" .
        moreover have "\<forall>a. toDouble (x - l) = Finite a \<longrightarrow> a \<le> d"
          using toDouble_Finite_mono [OF le _ d] by blast
        ultimately show ?thesis using d by blast
      qed simp
      have "inBand (nadd (ndiv (nmul (toDouble (x - l)) (Finite (- 43))) (toDouble (h - l))) (Finite 63))"
        by (rule mapped_row_cases [OF n D]) (use toDouble_PosInf_mono [OF le] in blast)
      then show ?thesis by (simp add: Finite l h pinsMap_def)
    qed
  qed
qed

section \<open>Pixels of the frame buffer\<close>

lemma column_page_inj:
  assumes "0 \<le> (x::int)" "x \<le> 127" "0 \<le> x'" "x' \<le> 127" "x + a * 128 + 1 = x' + b * 128 + 1"
  shows "x = x' \<and> a = b"
proof -
  have "(x + a * 128) mod 128 = (x' + b * 128) mod 128" using assms(5) by simp
  then have x: "x = x'" using assms(1-4) by simp
  with assms(5) show ?thesis by simp
qed

lemma row_div_mod_eq: "(y::int) div 8 = r div 8 \<Longrightarrow> y mod 8 = r mod 8 \<Longrightarrow> y = r"
  by (metis mult_div_mod_eq)

lemma set_pixel_step:
  assumes "0 \<le> x3" "x3 \<le> 127" "0 \<le> r" "r \<le> 63" "length buf = 1025"
  shows "setByte buf (x3 + shr r 3 * 128 + 1)
           (getByte buf (x3 + shr r 3 * 128 + 1) OR shl1 (jsRem r 8))
         = buf[nat (x3 + (r div 8) * 128 + 1) :=
                 set_bit (nat (r mod 8)) (buf ! nat (x3 + (r div 8) * 128 + 1))]"
proof -
  from pixel_index_range [OF assms(1-4)]
  have i: "0 \<le> x3 + (r div 8) * 128 + 1" "x3 + (r div 8) * 128 + 1 < 1025" by simp_all
  have m: "0 \<le> r mod 8" "r mod 8 < 8" by simp_all
  show ?thesis
    using assms(5) i
    by (simp add: shr3_row assms(3,4) jsRem_nonneg getByte_in setByte_in byte_or_shl1 [OF m])
qed

lemma clear_pixel_step:
  assumes "0 \<le> x3" "x3 \<le> 127" "0 \<le> r" "r \<le> 63" "length buf = 1025"
  shows "setByte buf (x3 + shr r 3 * 128 + 1)
           (clearBit (getByte buf (x3 + shr r 3 * 128 + 1)) (jsRem r 8))
         = buf[nat (x3 + (r div 8) * 128 + 1) :=
                 unset_bit (nat (r mod 8)) (buf ! nat (x3 + (r div 8) * 128 + 1))]"
proof -
  from pixel_index_range [OF assms(1-4)]
  have i: "0 \<le> x3 + (r div 8) * 128 + 1" "x3 + (r div 8) * 128 + 1 < 1025" by simp_all
  have m: "0 \<le> r mod 8" "r mod 8 < 8" by simp_all
  show ?thesis
    using assms(5) i
    by (simp add: shr3_row assms(3,4) jsRem_nonneg getByte_in setByte_in byte_clearBit [OF m])
qed

lemma pixelOn_nth:
  assumes "0 \<le> x" "x \<le> 127" "0 \<le> y" "y \<le> 63" "length buf = 1025"
  shows "pixelOn buf x y = bit (buf ! nat (x + (y div 8) * 128 + 1)) (nat (y mod 8))"
proof -
  from pixel_index_range [OF assms(1-4)]
  have i: "0 \<le> x + (y div 8) * 128 + 1" "x + (y div 8) * 128 + 1 < 1025" by simp_all
  have m: "nat (y mod 8) < 8" by simp
  show ?thesis using i assms(5) m by (simp add: pixelOn_def getByte_in bit_uint_iff)
qed

lemma pixelOn_set:
  assumes "0 \<le> x3" "x3 \<le> 127" "0 \<le> r" "r \<le> 63" "length buf = 1025"
    and "0 \<le> x" "x \<le> 127" "0 \<le> y" "y \<le> 63"
  shows "pixelOn (buf[nat (x3 + (r div 8) * 128 + 1) :=
                   set_bit (nat (r mod 8)) (buf ! nat (x3 + (r div 8) * 128 + 1))]) x y
         = (pixelOn buf x y \<or> (x = x3 \<and> y = r))"
proof -
  let ?i = "x3 + (r div 8) * 128 + 1" and ?j = "x + (y div 8) * 128 + 1"
  from pixel_index_range [OF assms(1-4)] have i: "0 \<le> ?i" "?i < 1025" by simp_all
  from pixel_index_range [OF assms(6-9)] have j: "0 \<le> ?j" "?j < 1025" by simp_all
  have m: "nat (r mod 8) < 8" "nat (y mod 8) < 8" by simp_all
  have mm: "nat (r mod 8) = nat (y mod 8) \<longleftrightarrow> r mod 8 = y mod 8"
    by (rule eq_nat_nat_iff) simp_all
  show ?thesis
  proof (cases "?i = ?j")
    case True
    from column_page_inj [OF assms(1,2,6,7) True] have e: "x3 = x" "r div 8 = y div 8" by simp_all
    have "r mod 8 = y mod 8 \<longleftrightarrow> y = r" using e(2) row_div_mod_eq [of y r] by auto
    then show ?thesis
      using i j assms(5) m True
      by (auto simp: pixelOn_nth [OF assms(6-9)] e bit_simps mm)
  next
    case False
    then have ne: "nat ?i \<noteq> nat ?j" using i j by linarith
    have "\<not> (x = x3 \<and> y = r)" using False by auto
    then show ?thesis
      using ne by (auto simp: pixelOn_nth [OF assms(6-9)] assms(5))
  qed
qed

lemma pixelOn_unset:
  assumes "0 \<le> x3" "x3 \<le> 127" "0 \<le> r" "r \<le> 63" "length buf = 1025"
    and "0 \<le> x" "x \<le> 127" "0 \<le> y" "y \<le> 63"
  shows "pixelOn (buf[nat (x3 + (r div 8) * 128 + 1) :=
                   unset_bit (nat (r mod 8)) (buf ! nat (x3 + (r div 8) * 128 + 1))]) x y
         = (pixelOn buf x y \<and> \<not> (x = x3 \<and> y = r))"
proof -
  let ?i = "x3 + (r div 8) * 128 + 1" and ?j = "x + (y div 8) * 128 + 1"
  from pixel_index_range [OF assms(1-4)] have i: "0 \<le> ?i" "?i < 1025" by simp_all
  from pixel_index_range [OF assms(6-9)] have j: "0 \<le> ?j" "?j < 1025" by simp_all
  have mm: "nat (r mod 8) = nat (y mod 8) \<longleftrightarrow> r mod 8 = y mod 8"
    by (rule eq_nat_nat_iff) simp_all
  show ?thesis
  proof (cases "?i = ?j")
    case True
    from column_page_inj [OF assms(1,2,6,7) True] have e: "x3 = x" "r div 8 = y div 8" by simp_all
    have "r mod 8 = y mod 8 \<longleftrightarrow> y = r" using e(2) row_div_mod_eq [of y r] by auto
    then show ?thesis
      using i j assms(5) True
      by (auto simp: pixelOn_nth [OF assms(6-9)] e bit_simps mm)
  next
    case False
    then have ne: "nat ?i \<noteq> nat ?j" using i j by linarith
    have "\<not> (x = x3 \<and> y = r)" using False by auto
    then show ?thesis
      using ne by (auto simp: pixelOn_nth [OF assms(6-9)] assms(5))
  qed
qed

section \<open>The plotter's loops\<close>

lemma setByte_low:
  "257 \<le> ind \<Longrightarrow> j < 257 \<Longrightarrow> setByte buf ind v ! j = buf ! j"
  by (simp add: setByte_def)

lemma band_index_low:
  "0 \<le> x3 \<Longrightarrow> 16 \<le> r \<Longrightarrow> r \<le> 63 \<Longrightarrow> 257 \<le> x3 + shr r 3 * 128 + 1"
proof -
  assume a: "0 \<le> x3" "16 \<le> r" "r \<le> 63"
  have "2 \<le> r div 8" using a(2) by simp
  then show ?thesis using a by (simp add: shr3_row)
qed

lemma clearLoop_low:
  "0 \<le> x3 \<Longrightarrow> 16 \<le> p \<Longrightarrow> j < 257 \<Longrightarrow> clearLoop x3 p buf ! j = buf ! j"
proof (induction x3 p buf rule: clearLoop.induct)
  case (1 x3 pixel buf)
  show ?case
  proof (cases "pixel \<le> GRAPH_Y_MIN_LOCATION")
    case True
    then have r: "pixel \<le> 63" by (simp add: GRAPH_Y_MIN_LOCATION_def)
    have i: "257 \<le> x3 + shr pixel 3 * 128 + 1"
      by (rule band_index_low [OF "1.prems"(1,2) r])
    have "clearLoop x3 (pixel + 1)
            (setByte buf (x3 + shr pixel 3 * 128 + 1)
               (clearBit (getByte buf (x3 + shr pixel 3 * 128 + 1)) (jsRem pixel 8))) ! j
          = setByte buf (x3 + shr pixel 3 * 128 + 1)
               (clearBit (getByte buf (x3 + shr pixel 3 * 128 + 1)) (jsRem pixel 8)) ! j"
      using "1.prems" by (intro "1.IH" [OF True refl refl refl refl]) simp_all
    then show ?thesis
      by (subst clearLoop.simps) (simp add: True Let_def setByte_low [OF i "1.prems"(3)])
  next
    case False
    then show ?thesis by (subst clearLoop.simps) simp
  qed
qed

lemma clearLoop_pixels:
  "0 \<le> x3 \<Longrightarrow> x3 \<le> 127 \<Longrightarrow> length buf = 1025 \<Longrightarrow> 0 \<le> p \<Longrightarrow>
   0 \<le> x \<Longrightarrow> x \<le> 127 \<Longrightarrow> 0 \<le> y \<Longrightarrow> y \<le> 63 \<Longrightarrow>
   pixelOn (clearLoop x3 p buf) x y = (pixelOn buf x y \<and> \<not> (x = x3 \<and> p \<le> y))"
proof (induction x3 p buf rule: clearLoop.induct)
  case (1 x3 pixel buf)
  show ?case
  proof (cases "pixel \<le> GRAPH_Y_MIN_LOCATION")
    case True
    then have r: "pixel \<le> 63" by (simp add: GRAPH_Y_MIN_LOCATION_def)
    let ?b1 = "setByte buf (x3 + shr pixel 3 * 128 + 1)
               (clearBit (getByte buf (x3 + shr pixel 3 * 128 + 1)) (jsRem pixel 8))"
    have b1: "?b1 = buf[nat (x3 + (pixel div 8) * 128 + 1) :=
                 unset_bit (nat (pixel mod 8)) (buf ! nat (x3 + (pixel div 8) * 128 + 1))]"
      by (rule clear_pixel_step [OF "1.prems"(1,2,4) r "1.prems"(3)])
    have l1: "length ?b1 = 1025" using "1.prems"(3) by simp
    have p1: "pixelOn ?b1 x y = (pixelOn buf x y \<and> \<not> (x = x3 \<and> y = pixel))"
      unfolding b1
      by (rule pixelOn_unset [OF "1.prems"(1,2,4) r "1.prems"(3) "1.prems"(5-8)])
    have "pixelOn (clearLoop x3 (pixel + 1) ?b1) x y
          = (pixelOn ?b1 x y \<and> \<not> (x = x3 \<and> pixel + 1 \<le> y))"
      using "1.prems" l1 by (intro "1.IH" [OF True refl refl refl refl]) simp_all
    then have "pixelOn (clearLoop x3 (pixel + 1) ?b1) x y
          = (pixelOn buf x y \<and> \<not> (x = x3 \<and> pixel \<le> y))"
      unfolding p1 by auto
    then show ?thesis
      by (subst clearLoop.simps) (simp add: True Let_def)
  next
    case False
    then have "63 < pixel" by (simp add: GRAPH_Y_MIN_LOCATION_def)
    then have "\<not> pixel \<le> y" using "1.prems"(8) by simp
    then show ?thesis using False by (subst clearLoop.simps) simp
  qed
qed

lemma jsTrunc_nonneg: "0 \<le> r \<Longrightarrow> jsTrunc r = \<lfloor>r\<rfloor>"
  by (simp add: jsTrunc_def)

lemma floor_div8:
  fixes p :: rat
  shows "\<lfloor>p / 8\<rfloor> = \<lfloor>p\<rfloor> div 8"
proof (rule floor_unique)
  define f where "f = \<lfloor>p\<rfloor>"
  define k where "k = f div 8"
  have i: "8 * k \<le> f" "f < 8 * k + 8" unfolding k_def by simp_all
  have p: "of_int f \<le> p" "p < of_int f + 1" unfolding f_def by linarith+
  have "(of_int (8 * k) :: rat) \<le> of_int f" using i(1) by (simp only: of_int_le_iff)
  then have a: "8 * of_int k \<le> p" using p(1) by simp
  have "(of_int f + 1 :: rat) \<le> of_int (8 * k + 8)"
    using i(2) of_int_le_iff [of "f + 1" "8 * k + 8", where ?'a = rat] by simp
  then have b: "p < 8 * of_int k + 8" using p(2) by simp
  show "of_int (\<lfloor>p\<rfloor> div 8) \<le> p / 8" using a by (simp add: f_def k_def)
  show "p / 8 < of_int (\<lfloor>p\<rfloor> div 8) + 1" using b by (simp add: f_def k_def)
qed

lemma numRem8_trunc:
  assumes "0 \<le> p"
  shows "numTrunc (numRem (Finite p) 8) = \<lfloor>p\<rfloor> mod 8"
proof -
  define k where "k = \<lfloor>p\<rfloor> div 8"
  have t: "jsTrunc (p / 8) = k" using assms by (simp add: jsTrunc_nonneg floor_div8 k_def)
  have "8 * k \<le> \<lfloor>p\<rfloor>" unfolding k_def by simp
  then have "(of_int (8 * k) :: rat) \<le> of_int \<lfloor>p\<rfloor>" by (simp only: of_int_le_iff)
  also have "\<dots> \<le> p" by simp
  finally have n: "0 \<le> p - 8 * of_int k" by simp
  have "\<lfloor>p - of_int (8 * k)\<rfloor> = \<lfloor>p\<rfloor> - 8 * k" by (rule floor_diff_of_int)
  then have f: "\<lfloor>p - 8 * of_int k\<rfloor> = \<lfloor>p\<rfloor> - 8 * k" by simp
  have "\<lfloor>p\<rfloor> - 8 * k = \<lfloor>p\<rfloor> mod 8" unfolding k_def by (simp add: minus_mult_div_eq_mod)
  with f n show ?thesis by (simp add: numTrunc_def numRem_def t jsTrunc_nonneg)
qed

lemma drawPixel_row:
  assumes "0 \<le> p"
  shows "drawPixel x3 (Finite p) buf =
           setByte buf (x3 + shr \<lfloor>p\<rfloor> 3 * 128 + 1)
             (getByte buf (x3 + shr \<lfloor>p\<rfloor> 3 * 128 + 1) OR shl1 (jsRem \<lfloor>p\<rfloor> 8))"
proof -
  have "0 \<le> \<lfloor>p\<rfloor>" using assms by simp
  then have j: "jsRem \<lfloor>p\<rfloor> 8 = \<lfloor>p\<rfloor> mod 8" by (simp add: jsRem_def)
  have n: "numTrunc (Finite p) = \<lfloor>p\<rfloor>" using assms by (simp add: numTrunc_def jsTrunc_nonneg)
  show ?thesis unfolding drawPixel_def Let_def n numRem8_trunc [OF assms] j ..
qed

lemma counter_step:
  assumes "16 \<le> p" "p < 64"
  shows "nadd (Finite p) (Finite 1) = Finite (roundToDouble (p + 1))"
    and "p + 1 / 2 \<le> roundToDouble (p + 1)"
proof -
  have b: "of_int 0 \<le> p + 1" "p + 1 \<le> of_int 65" using assms by simp_all
  have "toDouble (p + 1) = Finite (roundToDouble (p + 1))"
    by (rule toDouble_bounded(1) [OF b]) simp_all
  then show "nadd (Finite p) (Finite 1) = Finite (roundToDouble (p + 1))" by simp
  have "\<bar>p + 1\<bar> = p + 1" using assms by simp
  with roundToDouble_near [of "p + 1"]
  have "\<bar>roundToDouble (p + 1) - (p + 1)\<bar> \<le> (p + 1) / 1000 + 1 / 1000" by simp
  then have "p + 1 - roundToDouble (p + 1) \<le> p / 1000 + 1 / 1000 + 1 / 1000"
    by (simp add: abs_le_iff add_divide_distrib)
  then show "p + 1 / 2 \<le> roundToDouble (p + 1)" using assms by linarith
qed

lemma drawLoop_band:
  "0 \<le> x3 \<Longrightarrow> x3 \<le> 127 \<Longrightarrow> length buf = 1025 \<Longrightarrow> 16 \<le> p \<Longrightarrow> t \<le> 64 \<Longrightarrow>
   2 * (t - p) \<le> of_nat n \<Longrightarrow>
   \<exists>buf'. drawLoop x3 (Finite p) (Finite t) buf = Some buf' \<and> length buf' = 1025
     \<and> (\<forall>j. j < 257 \<longrightarrow> buf' ! j = buf ! j)
     \<and> (\<forall>x y. 0 \<le> x \<and> x \<le> 127 \<and> 0 \<le> y \<and> y \<le> 63 \<longrightarrow>
           pixelOn buf' x y = (pixelOn buf x y \<or> (x = x3 \<and> y \<in> set (visitedRows n p t))))"
proof (induction n arbitrary: p buf)
  case 0
  then have "\<not> p < t" by simp
  then have "drawLoop x3 (Finite p) (Finite t) buf = Some buf"
    by (subst drawLoop.simps) simp
  then show ?case using "0.prems"(3) by simp
next
  case (Suc n)
  show ?case
  proof (cases "p < t")
    case False
    then have "drawLoop x3 (Finite p) (Finite t) buf = Some buf"
      by (subst drawLoop.simps) simp
    then show ?thesis using Suc.prems(3) False by simp
  next
    case True
    define r where "r = \<lfloor>p\<rfloor>"
    define p' where "p' = roundToDouble (p + 1)"
    have p0: "0 \<le> p" using Suc.prems(4) by simp
    have p64: "p < 64" using True Suc.prems(5) by simp
    have lo: "16 \<le> r" using Suc.prems(4) by (simp add: r_def le_floor_iff)
    have r0: "0 \<le> r" using lo by simp
    have hi: "r \<le> 63" using p64 by (simp add: r_def floor_le_iff)
    let ?b1 = "drawPixel x3 (Finite p) buf"
    have d: "?b1 = setByte buf (x3 + shr r 3 * 128 + 1)
               (getByte buf (x3 + shr r 3 * 128 + 1) OR shl1 (jsRem r 8))"
      unfolding r_def by (rule drawPixel_row [OF p0])
    have b1: "?b1 = buf[nat (x3 + (r div 8) * 128 + 1) :=
                 set_bit (nat (r mod 8)) (buf ! nat (x3 + (r div 8) * 128 + 1))]"
      unfolding d by (rule set_pixel_step [OF Suc.prems(1,2) r0 hi Suc.prems(3)])
    have l1: "length ?b1 = 1025" using Suc.prems(3) by simp
    have i: "257 \<le> x3 + shr r 3 * 128 + 1" by (rule band_index_low [OF Suc.prems(1) lo hi])
    have low1: "\<And>j. j < 257 \<Longrightarrow> ?b1 ! j = buf ! j"
      unfolding d by (rule setByte_low [OF i])
    have pix1: "\<And>x y. 0 \<le> x \<Longrightarrow> x \<le> 127 \<Longrightarrow> 0 \<le> y \<Longrightarrow> y \<le> 63 \<Longrightarrow>
        pixelOn ?b1 x y = (pixelOn buf x y \<or> (x = x3 \<and> y = r))"
      unfolding b1 by (rule pixelOn_set [OF Suc.prems(1,2) r0 hi Suc.prems(3)])
    from counter_step [OF Suc.prems(4) p64]
    have st: "nadd (Finite p) (Finite 1) = Finite p'" and adv: "p + 1 / 2 \<le> p'"
      by (simp_all add: p'_def)
    have p16: "16 \<le> p'" using adv Suc.prems(4) by linarith
    have fuel: "2 * (t - p') \<le> of_nat n" using adv Suc.prems(6) by simp
    from Suc.IH [OF Suc.prems(1,2) l1 p16 Suc.prems(5) fuel] obtain buf'
      where r1: "drawLoop x3 (Finite p') (Finite t) ?b1 = Some buf'" and l': "length buf' = 1025"
        and low': "\<forall>j. j < 257 \<longrightarrow> buf' ! j = ?b1 ! j"
        and pix': "\<forall>x y. 0 \<le> x \<and> x \<le> 127 \<and> 0 \<le> y \<and> y \<le> 63 \<longrightarrow>
           pixelOn buf' x y = (pixelOn ?b1 x y \<or> (x = x3 \<and> y \<in> set (visitedRows n p' t)))"
      by blast
    have c: "nlt (Finite p) (Finite t)" using True by simp
    have e: "drawLoop x3 (Finite p) (Finite t) buf = Some buf'"
      by (subst drawLoop.simps) (simp only: c if_True st r1)
    have v: "visitedRows (Suc n) p t = r # visitedRows n p' t"
      using True by (simp add: r_def p'_def)
    have low: "\<forall>j. j < 257 \<longrightarrow> buf' ! j = buf ! j" using low' low1 by simp
    have pix: "\<forall>x y. 0 \<le> x \<and> x \<le> 127 \<and> 0 \<le> y \<and> y \<le> 63 \<longrightarrow>
           pixelOn buf' x y = (pixelOn buf x y \<or> (x = x3 \<and> y \<in> set (visitedRows (Suc n) p t)))"
      unfolding v using pix' pix1 by auto
    from e l' low pix show ?thesis by blast
  qed
qed

lemma nlt_NaN_right [simp]: "nlt a NaN = False"
  by (cases a) simp_all

lemma nadd_NaN_right [simp]: "nadd a NaN = NaN"
  by (cases a) simp_all

lemma nsub_NaN_right [simp]: "nsub a NaN = NaN"
  by (cases a) simp_all

lemma segment_stop:
  assumes "16 \<le> a" "a \<le> b" "b \<le> 63"
  shows "\<exists>len t. toDouble (b - a) = Finite len \<and> toDouble (a + len) = Finite t \<and> t \<le> 64"
proof -
  have d: "of_int 0 \<le> b - a" "b - a \<le> of_int 47" using assms by simp_all
  define len where "len = roundToDouble (b - a)"
  have tl: "toDouble (b - a) = Finite len" unfolding len_def
    by (rule toDouble_bounded(1) [OF d]) simp_all
  have l0: "0 \<le> len" using toDouble_bounded(2) [OF d] by (simp add: len_def)
  have "\<bar>b - a\<bar> = b - a" using assms(2) by simp
  with roundToDouble_near [of "b - a"]
  have "\<bar>len - (b - a)\<bar> \<le> (b - a) / 1000 + 1 / 1000" by (simp add: len_def)
  then have "len - (b - a) \<le> b / 1000 - a / 1000 + 1 / 1000"
    by (simp add: abs_le_iff diff_divide_distrib)
  then have l1: "a + len \<le> 64" using assms by linarith
  have s: "of_int 16 \<le> a + len" "a + len \<le> of_int 64" using l0 l1 assms(1) by simp_all
  have ts: "toDouble (a + len) = Finite (roundToDouble (a + len))"
    by (rule toDouble_bounded(1) [OF s]) simp_all
  have "roundToDouble (a + len) \<le> 64" using toDouble_bounded(3) [OF s] by simp
  with tl ts show ?thesis by blast
qed

lemma single_stop:
  assumes "16 \<le> c" "c \<le> 63"
  shows "\<exists>t. nadd (Finite c) (Finite 1) = Finite t \<and> t \<le> 64"
proof -
  have s: "of_int 16 \<le> c + 1" "c + 1 \<le> of_int 64" using assms by simp_all
  have ts: "toDouble (c + 1) = Finite (roundToDouble (c + 1))"
    by (rule toDouble_bounded(1) [OF s]) simp_all
  have "roundToDouble (c + 1) \<le> 64" using toDouble_bounded(3) [OF s] by simp
  with ts show ?thesis by simp
qed

lemma plotSegment_band:
  assumes "inBand previous" "inBand yPlot"
  shows "((\<forall>y3. fst (plotSegment previous yPlot) \<noteq> Finite y3)
          \<and> \<not> nlt (fst (plotSegment previous yPlot))
                 (nadd (fst (plotSegment previous yPlot)) (snd (plotSegment previous yPlot))))
       \<or> (\<exists>y3 t. fst (plotSegment previous yPlot) = Finite y3
             \<and> nadd (fst (plotSegment previous yPlot)) (snd (plotSegment previous yPlot)) = Finite t
             \<and> 16 \<le> y3 \<and> y3 \<le> 63 \<and> t \<le> 64)"
proof (cases yPlot)
  case NaN
  then show ?thesis by (simp add: plotSegment_def ngt_def)
next
  case PosInf
  with assms(2) show ?thesis by (simp add: inBand_def)
next
  case NegInf
  from assms(1) show ?thesis
    by (cases previous) (simp_all add: NegInf plotSegment_def ngt_def inBand_def)
next
  case c: (Finite c)
  have cb: "16 \<le> c" "c \<le> 63" using assms(2) by (simp_all add: c inBand_def)
  show ?thesis
  proof (cases previous)
    case NaN
    from single_stop [OF cb] show ?thesis
      using cb by (auto simp: c NaN plotSegment_def ngt_def simp del: nadd.simps)
  next
    case PosInf
    with assms(1) show ?thesis by (simp add: inBand_def)
  next
    case NegInf
    then show ?thesis by (simp add: c plotSegment_def ngt_def)
  next
    case p: (Finite p)
    have pb: "16 \<le> p" "p \<le> 63" using assms(1) by (simp_all add: p inBand_def)
    consider "c < p" | "p < c" | "c = p" by linarith
    then show ?thesis
    proof cases
      case 1
      then have le: "c \<le> p" by simp
      from segment_stop [OF cb(1) le pb(2)] obtain len t
        where "toDouble (p - c) = Finite len" "toDouble (c + len) = Finite t" "t \<le> 64" by blast
      then show ?thesis using 1 cb by (simp add: c p plotSegment_def)
    next
      case 2
      then have le: "p \<le> c" by simp
      from segment_stop [OF pb(1) le cb(2)] obtain len t
        where "toDouble (c - p) = Finite len" "toDouble (p + len) = Finite t" "t \<le> 64" by blast
      then show ?thesis using 2 pb by (simp add: c p plotSegment_def ngt_def)
    next
      case 3
      from single_stop [OF cb] show ?thesis
        using 3 cb by (auto simp: c p plotSegment_def ngt_def simp del: nadd.simps)
    qed
  qed
qed

lemma segmentOn_nodraw:
  "\<forall>y3. fst (plotSegment previous yPlot) \<noteq> Finite y3 \<Longrightarrow> \<not> segmentOn previous yPlot y"
  by (cases "plotSegment previous yPlot"; cases "fst (plotSegment previous yPlot)")
     (auto simp: segmentOn_def)

lemma segmentOn_draw:
  "fst (plotSegment previous yPlot) = Finite y3 \<Longrightarrow>
   nadd (fst (plotSegment previous yPlot)) (snd (plotSegment previous yPlot)) = Finite t \<Longrightarrow>
   segmentOn previous yPlot y = (y \<in> set (visitedRows 128 y3 t))"
  by (cases "plotSegment previous yPlot") (auto simp: segmentOn_def)

lemma plotColumn_previous: "plotColumn i s = Some s' \<Longrightarrow> previousYPlot s' = sampleRow s i"
  by (rule plotColumn_fields(9))

lemma plotColumn_sampleRow: "plotColumn i s = Some s' \<Longrightarrow> sampleRow s' k = sampleRow s k"
  using plotColumn_fields(3-5) [of i s s'] by (simp add: sampleRow_def)

lemma plotColumn_band:
  assumes "length (screenBuf s) = 1025" "i \<le> 127" "inBand (sampleRow s i)"
    and "i = 0 \<or> inBand (previousYPlot s)"
  shows "\<exists>s'. plotColumn i s = Some s'
     \<and> (\<forall>j. j < 257 \<longrightarrow> screenBuf s' ! j = screenBuf s ! j)
     \<and> (\<forall>x y. 0 \<le> x \<and> x \<le> 127 \<and> 20 \<le> y \<and> y \<le> 63 \<longrightarrow>
           pixelOn (screenBuf s') x y =
             (if x = int i
              then segmentOn (if i = 0 then sampleRow s i else previousYPlot s) (sampleRow s i) y
              else pixelOn (screenBuf s) x y))"
proof -
  define previous where "previous = (if i = 0 then sampleRow s i else previousYPlot s)"
  define buf where "buf = clearLoop (int i) 20 (screenBuf s)"
  define y3 where "y3 = fst (plotSegment previous (sampleRow s i))"
  define len where "len = snd (plotSegment previous (sampleRow s i))"
  have pb: "inBand previous" using assms(3,4) by (auto simp: previous_def)
  have x3: "0 \<le> int i" "int i \<le> 127" using assms(2) by simp_all
  have lb: "length buf = 1025" by (simp add: buf_def assms(1))
  have cb: "\<And>x y. 0 \<le> x \<Longrightarrow> x \<le> 127 \<Longrightarrow> 0 \<le> y \<Longrightarrow> y \<le> 63 \<Longrightarrow>
      pixelOn buf x y = (pixelOn (screenBuf s) x y \<and> \<not> (x = int i \<and> 20 \<le> y))"
    unfolding buf_def by (rule clearLoop_pixels [OF x3 assms(1)]) simp_all
  have cl: "\<And>j. j < 257 \<Longrightarrow> buf ! j = screenBuf s ! j"
    unfolding buf_def by (rule clearLoop_low) simp_all
  have pc: "plotColumn i s =
      map_option (\<lambda>b. s\<lparr>screenBuf := b, previousYPlot := sampleRow s i\<rparr>)
        (drawLoop (int i) y3 (nadd y3 len) buf)"
    unfolding previous_def buf_def y3_def len_def by (simp add: plotColumn_unfold Let_def)
  from plotSegment_band [OF pb assms(3)]
  have "(\<forall>v. y3 \<noteq> Finite v) \<and> \<not> nlt y3 (nadd y3 len)
      \<or> (\<exists>v t. y3 = Finite v \<and> nadd y3 len = Finite t \<and> 16 \<le> v \<and> v \<le> 63 \<and> t \<le> 64)"
    unfolding y3_def len_def .
  then show ?thesis
  proof
    assume a: "(\<forall>v. y3 \<noteq> Finite v) \<and> \<not> nlt y3 (nadd y3 len)"
    then have "drawLoop (int i) y3 (nadd y3 len) buf = Some buf"
      by (subst drawLoop.simps) simp
    then have e: "plotColumn i s = Some (s\<lparr>screenBuf := buf, previousYPlot := sampleRow s i\<rparr>)"
      unfolding pc by simp
    have off: "\<And>y. \<not> segmentOn previous (sampleRow s i) y"
      by (rule segmentOn_nodraw) (use a in \<open>simp add: y3_def\<close>)
    show ?thesis
      unfolding e previous_def [symmetric] using cl cb off by auto
  next
    assume "\<exists>v t. y3 = Finite v \<and> nadd y3 len = Finite t \<and> 16 \<le> v \<and> v \<le> 63 \<and> t \<le> 64"
    then obtain v t where y3: "y3 = Finite v" and st: "nadd y3 len = Finite t"
      and v: "16 \<le> v" "v \<le> 63" and t: "t \<le> 64" by blast
    have fuel: "2 * (t - v) \<le> of_nat 128" using v(1) t by simp
    from drawLoop_band [OF x3 lb v(1) t fuel] obtain buf'
      where d: "drawLoop (int i) (Finite v) (Finite t) buf = Some buf'"
        and low: "\<forall>j. j < 257 \<longrightarrow> buf' ! j = buf ! j"
        and pix: "\<forall>x y. 0 \<le> x \<and> x \<le> 127 \<and> 0 \<le> y \<and> y \<le> 63 \<longrightarrow>
           pixelOn buf' x y = (pixelOn buf x y \<or> (x = int i \<and> y \<in> set (visitedRows 128 v t)))"
      by blast
    have e: "plotColumn i s = Some (s\<lparr>screenBuf := buf', previousYPlot := sampleRow s i\<rparr>)"
      unfolding pc st unfolding y3 d by simp
    have on: "\<And>y. segmentOn previous (sampleRow s i) y = (y \<in> set (visitedRows 128 v t))"
      by (rule segmentOn_draw) (use y3 st in \<open>simp_all add: y3_def len_def\<close>)
    show ?thesis
      unfolding e previous_def [symmetric] using cl low cb pix on by auto
  qed
qed

lemma plotLoop_band:
  "length (screenBuf s) = 1025 \<Longrightarrow> n \<le> 127 \<Longrightarrow> \<forall>k. inBand (sampleRow s k) \<Longrightarrow>
   a = 0 \<or> previousYPlot s = sampleRow s (a - 1) \<Longrightarrow>
   \<exists>s'. plotLoop a n s = Some s'
     \<and> (\<forall>j. j < 257 \<longrightarrow> screenBuf s' ! j = screenBuf s ! j)
     \<and> (\<forall>i y. i \<le> 127 \<and> 20 \<le> y \<and> y \<le> 63 \<longrightarrow>
           pixelOn (screenBuf s') (int i) y =
             (if a \<le> i \<and> i \<le> n then segmentOn (sampleRow s (i - 1)) (sampleRow s i) y
              else pixelOn (screenBuf s) (int i) y))"
proof (induction a n s rule: plotLoop.induct)
  case (1 a n s)
  show ?case
  proof (cases "a \<le> n")
    case True
    have a127: "a \<le> 127" using True "1.prems"(2) by simp
    have pv: "a = 0 \<or> inBand (previousYPlot s)" using "1.prems"(3,4) by auto
    have pa: "(if a = 0 then sampleRow s a else previousYPlot s) = sampleRow s (a - 1)"
      using "1.prems"(4) by auto
    from plotColumn_band [OF "1.prems"(1) a127 _ pv] "1.prems"(3) obtain s1
      where c: "plotColumn a s = Some s1"
        and low1: "\<forall>j. j < 257 \<longrightarrow> screenBuf s1 ! j = screenBuf s ! j"
        and pix1: "\<forall>x y. 0 \<le> x \<and> x \<le> 127 \<and> 20 \<le> y \<and> y \<le> 63 \<longrightarrow>
           pixelOn (screenBuf s1) x y =
             (if x = int a then segmentOn (sampleRow s (a - 1)) (sampleRow s a) y
              else pixelOn (screenBuf s) x y)"
      unfolding pa by blast
    have l1: "length (screenBuf s1) = 1025" using plotColumn_fields(8) [OF c] "1.prems"(1) by simp
    have rows1: "\<forall>k. inBand (sampleRow s1 k)"
      using "1.prems"(3) by (simp add: plotColumn_sampleRow [OF c])
    have prev1: "a + 1 = 0 \<or> previousYPlot s1 = sampleRow s1 (a + 1 - 1)"
      by (simp add: plotColumn_previous [OF c] plotColumn_sampleRow [OF c])
    from "1.IH" [OF True c l1 "1.prems"(2) rows1 prev1] obtain s'
      where l: "plotLoop (a + 1) n s1 = Some s'"
        and low': "\<forall>j. j < 257 \<longrightarrow> screenBuf s' ! j = screenBuf s1 ! j"
        and pix': "\<forall>i y. i \<le> 127 \<and> 20 \<le> y \<and> y \<le> 63 \<longrightarrow>
           pixelOn (screenBuf s') (int i) y =
             (if a + 1 \<le> i \<and> i \<le> n then segmentOn (sampleRow s1 (i - 1)) (sampleRow s1 i) y
              else pixelOn (screenBuf s1) (int i) y)"
      by blast
    have e: "plotLoop a n s = Some s'"
      by (subst plotLoop.simps) (simp only: True if_True c option.case l)
    have low: "\<forall>j. j < 257 \<longrightarrow> screenBuf s' ! j = screenBuf s ! j" using low' low1 by simp
    have pix: "\<forall>i y. i \<le> 127 \<and> 20 \<le> y \<and> y \<le> 63 \<longrightarrow>
           pixelOn (screenBuf s') (int i) y =
             (if a \<le> i \<and> i \<le> n then segmentOn (sampleRow s (i - 1)) (sampleRow s i) y
              else pixelOn (screenBuf s) (int i) y)"
    proof (intro allI impI)
      fix i :: nat and y :: int
      assume r: "i \<le> 127 \<and> 20 \<le> y \<and> y \<le> 63"
      then have x: "0 \<le> int i \<and> int i \<le> 127 \<and> 20 \<le> y \<and> y \<le> 63" by simp
      from pix' r have p2: "pixelOn (screenBuf s') (int i) y =
             (if a + 1 \<le> i \<and> i \<le> n then segmentOn (sampleRow s (i - 1)) (sampleRow s i) y
              else pixelOn (screenBuf s1) (int i) y)"
        by (simp add: plotColumn_sampleRow [OF c])
      from pix1 x have p1: "pixelOn (screenBuf s1) (int i) y =
             (if i = a then segmentOn (sampleRow s (a - 1)) (sampleRow s a) y
              else pixelOn (screenBuf s) (int i) y)"
        by simp
      show "pixelOn (screenBuf s') (int i) y =
             (if a \<le> i \<and> i \<le> n then segmentOn (sampleRow s (i - 1)) (sampleRow s i) y
              else pixelOn (screenBuf s) (int i) y)"
        unfolding p2 p1 using True by auto
    qed
    from e low pix show ?thesis by blast
  next
    case False
    then have "plotLoop a n s = Some s" by (subst plotLoop.simps) simp
    then show ?thesis using False by auto
  qed
qed

lemma plotReady_rows:
  assumes "plotReady s"
  shows "inBand (sampleRow s k)"
proof (cases "k < length (plotArray s)")
  case True
  from assms have v: "plotArray s ! k = NaN
      \<or> (nle (graphYMin s) (plotArray s ! k) \<and> nle (plotArray s ! k) (graphYMax s))"
    using True by (simp add: plotReady_def list_all_length)
  from assms have b: "nle (graphYMin s) (Finite 0)" "nle (Finite 100) (graphYMax s)"
    by (simp_all add: plotReady_def)
  from pinsMap_band [OF v b] show ?thesis
    using True by (simp add: sampleRow_def GRAPH_Y_MIN_LOCATION_def GRAPH_Y_MAX_LOCATION_def)
next
  case False
  then show ?thesis by (simp add: sampleRow_def inBand_def)
qed

lemma plotRecorded_screen:
  "initialised (plotRecorded dev v screen s) =
     (if initialised s = 0 \<and> dev DISPLAY_ADDR_1 then 1 else initialised s)"
  "screenBuf (plotRecorded dev v screen s) =
     (if initialised s = 0 \<and> dev DISPLAY_ADDR_1
      then setByte (replicate (length (screenBuf s)) 0) 0 0x40 else screenBuf s)"
  by (simp_all add: plotRecorded_def Let_def initDisplay_initialised initDisplay_screenBuf
      setScreenAddr_def)

lemma refresh_screenBuf:
  "initialised s \<noteq> 0 \<or> \<not> dev DISPLAY_ADDR_1 \<Longrightarrow> screenBuf (refresh dev None s) = screenBuf s"
  by (auto simp: refresh_def Let_def initDisplay_screenBuf setScreenAddr_def)

lemma sampleRow_cong:
  "plotArray s' = plotArray s \<Longrightarrow> graphYMin s' = graphYMin s \<Longrightarrow> graphYMax s' = graphYMax s \<Longrightarrow>
   sampleRow s' k = sampleRow s k"
  by (simp add: sampleRow_def)

lemma plot_band:
  assumes "plotReady s"
  shows "\<exists>s'. plot dev v screen s = Some s' \<and> plotReady s'
     \<and> (\<forall>j. j < 257 \<longrightarrow> screenBuf s' ! j = screenBuf (plotRecorded dev v screen s) ! j)
     \<and> (\<forall>i y. i < length (plotArray s') \<and> 20 \<le> y \<and> y \<le> 63 \<longrightarrow>
           pixelOn (screenBuf s') (int i) y =
             segmentOn (sampleRow s' (i - 1)) (sampleRow s' i) y)"
proof -
  let ?r = "plotRecorded dev v screen s"
  have r: "plotReady ?r" by (rule plotReady_recorded [OF assms])
  have l: "length (screenBuf ?r) = 1025" using r by (simp add: plotReady_def)
  have n: "length (plotArray s) \<le> 127" using assms by (simp add: plotReady_def)
  have rows: "\<forall>k. inBand (sampleRow ?r k)" using plotReady_rows [OF r] by simp
  from plotLoop_band [OF l n rows, of 0] obtain s6
    where lp: "plotLoop 0 (length (plotArray s)) ?r = Some s6"
      and low: "\<forall>j. j < 257 \<longrightarrow> screenBuf s6 ! j = screenBuf ?r ! j"
      and pix: "\<forall>i y. i \<le> 127 \<and> 20 \<le> y \<and> y \<le> 63 \<longrightarrow>
           pixelOn (screenBuf s6) (int i) y =
             (if 0 \<le> i \<and> i \<le> length (plotArray s)
              then segmentOn (sampleRow ?r (i - 1)) (sampleRow ?r i) y
              else pixelOn (screenBuf ?r) (int i) y)"
    by auto
  define s' where "s' = refresh dev None s6"
  have e: "plot dev v screen s = Some s'" unfolding plot_by_parts lp s'_def by simp
  have f: "plotArray s6 = plotArray ?r" "graphYMin s6 = graphYMin ?r" "graphYMax s6 = graphYMax ?r"
    "initialised s6 = initialised ?r"
    using plotLoop_fields [OF lp] by simp_all
  have "initialised s6 \<noteq> 0 \<or> \<not> dev DISPLAY_ADDR_1"
    unfolding f(4) by (simp add: plotRecorded_screen(1))
  then have sb: "screenBuf s' = screenBuf s6" unfolding s'_def by (rule refresh_screenBuf)
  have g: "plotArray s' = plotArray ?r" "graphYMin s' = graphYMin ?r" "graphYMax s' = graphYMax ?r"
    unfolding s'_def by (simp_all add: f)
  have rw: "\<And>k. sampleRow s' k = sampleRow ?r k" by (rule sampleRow_cong [OF g])
  have len: "length (plotArray s') \<le> Suc (length (plotArray s))"
    unfolding g(1) by (simp add: plotRecorded_fields(1))
  have pix': "\<forall>i y. i < length (plotArray s') \<and> 20 \<le> y \<and> y \<le> 63 \<longrightarrow>
           pixelOn (screenBuf s') (int i) y =
             segmentOn (sampleRow s' (i - 1)) (sampleRow s' i) y"
  proof (intro allI impI)
    fix i :: nat and y :: int
    assume a: "i < length (plotArray s') \<and> 20 \<le> y \<and> y \<le> 63"
    then have i: "i \<le> length (plotArray s)" "i \<le> 127" using len n by simp_all
    with pix a show "pixelOn (screenBuf s') (int i) y =
             segmentOn (sampleRow s' (i - 1)) (sampleRow s' i) y"
      unfolding sb rw by simp
  qed
  have rd: "plotReady s'" by (rule plotReady_plot [OF assms e])
  have low': "\<forall>j. j < 257 \<longrightarrow> screenBuf s' ! j = screenBuf ?r ! j" using low sb by simp
  from e rd low' pix' show ?thesis by blast
qed

lemma plot_returns: "plotReady s \<Longrightarrow> \<exists>s'. plot dev v screen s = Some s' \<and> plotReady s'"
  using plot_band [of s dev v screen] by blast

lemma plots_returns: "plotReady s \<Longrightarrow> \<exists>s'. plots dev vs s = Some s' \<and> plotReady s'"
proof (induction vs arbitrary: s)
  case Nil
  then show ?case by simp
next
  case (Cons v vs)
  from plot_returns [OF Cons.prems, of dev v None] obtain s1
    where p: "plot dev v None s = Some s1" "plotReady s1" by blast
  from Cons.IH [OF p(2)] show ?case by (simp add: p(1))
qed

section \<open>Every reachable state is a well-formed plot state\<close>

lemma samePlot_refl [simp]: "samePlot s s"
  by (simp add: samePlot_def)

lemma samePlot_trans: "samePlot s s' \<Longrightarrow> samePlot s' s'' \<Longrightarrow> samePlot s s''"
  by (simp add: samePlot_def)

lemma samePlot_ready: "samePlot s s' \<Longrightarrow> plotReady s \<Longrightarrow> plotReady s'"
  by (simp add: samePlot_def plotReady_def)

lemma samePlot_initDisplay: "samePlot s (initDisplay dev screen s)"
  by (simp add: samePlot_def)

lemma samePlot_setPixel: "samePlot s (setPixel dev x y screen s)"
  by (simp add: samePlot_def setPixel_def Let_def)

lemma samePlot_clearPixel: "samePlot s (clearPixel dev x y screen s)"
  by (simp add: samePlot_def clearPixel_def Let_def)

lemma samePlot_clear: "samePlot s (clear dev screen s)"
  by (simp add: samePlot_def clear_def Let_def)

lemma samePlot_refresh: "samePlot s (refresh dev screen s)"
  by (simp add: samePlot_def)

lemma samePlot_controlDisplayOnOff: "samePlot s (controlDisplayOnOff dev displayOutput screen s)"
  by (simp add: samePlot_def controlDisplayOnOff_def Let_def)

lemma samePlot_invert: "samePlot s (invert dev output screen s)"
  by (simp add: samePlot_def invert_def Let_def)

lemma samePlot_renderLine: "samePlot s (snd (renderLine displayString xyi s))"
proof -
  obtain x y ind where xyi: "xyi = (x, y, ind)" by (cases xyi) auto
  obtain ind' buf where d: "drawString x y 0 displayString (ind, screenBuf s) = (ind', buf)"
    by (cases "drawString x y 0 displayString (ind, screenBuf s)") auto
  have l: "length buf = length (screenBuf s)"
    using length_drawString [of x y 0 displayString "(ind, screenBuf s)"] by (simp add: d)
  show ?thesis
    by (simp add: samePlot_def renderLine_def xyi d Let_def l)
qed

lemma samePlot_showLoop: "samePlot s (showLoop inputString a ls textLine xyi s)"
proof (induction ls arbitrary: textLine xyi s)
  case Nil
  then show ?case by simp
next
  case (Cons l ls)
  obtain x y ind where xyi: "xyi = (x, y, ind)" by (cases xyi) auto
  obtain xyi' s' where r: "showLine inputString a l textLine xyi s = (xyi', s')"
    by (cases "showLine inputString a l textLine xyi s") auto
  have "s' = snd (renderLine l (alignX inputString a l textLine x, y, ind) s)"
    using r by (simp add: showLine_def xyi)
  then have q: "samePlot s s'" by (simp add: samePlot_renderLine)
  show ?case
    using samePlot_trans [OF q Cons.IH [of s' "textLine + 1" xyi']] by (simp add: r)
qed

lemma samePlot_show: "samePlot s (show dev inputData line displayShowAlign screen s)"
proof -
  let ?s1 = "s\<lparr>displayAddress := setScreenAddr screen\<rparr>"
  let ?s2 = "(if initialised ?s1 = 0 then initDisplay dev (Some 1) ?s1 else ?s1)"
  have q: "samePlot s ?s2" by (simp add: samePlot_def)
  show ?thesis
    using samePlot_trans [OF q samePlot_showLoop]
    by (simp add: show_def Let_def)
qed

lemma samePlot_clearLine: "samePlot s (clearLine dev line screen s)"
proof -
  let ?s1 = "s\<lparr>displayAddress := setScreenAddr screen\<rparr>"
  let ?s2 = "(if initialised ?s1 = 0 then initDisplay dev (Some 1) ?s1 else ?s1)"
  have q: "samePlot s ?s2" by (simp add: samePlot_def)
  show ?thesis
    using samePlot_trans [OF q samePlot_show]
    by (simp add: clearLine_def Let_def)
qed

lemma samePlot_hLineLoop: "samePlot s (hLineLoop dev hPixel stop y screen s)"
proof (induction dev hPixel stop y screen s rule: hLineLoop.induct)
  case (1 dev hPixel stop y screen s)
  show ?case
  proof (cases "hPixel < stop")
    case True
    from samePlot_trans [OF samePlot_setPixel "1.IH" [OF True]] show ?thesis
      by (subst hLineLoop.simps) (simp add: True)
  next
    case False
    then show ?thesis by (subst hLineLoop.simps) simp
  qed
qed

lemma samePlot_vLineLoop: "samePlot s (vLineLoop dev vPixel stop x screen s)"
proof (induction dev vPixel stop x screen s rule: vLineLoop.induct)
  case (1 dev vPixel stop x screen s)
  show ?case
  proof (cases "vPixel < stop")
    case True
    from samePlot_trans [OF samePlot_setPixel "1.IH" [OF True]] show ?thesis
      by (subst vLineLoop.simps) (simp add: True)
  next
    case False
    then show ?thesis by (subst vLineLoop.simps) simp
  qed
qed

lemma samePlot_drawLine: "samePlot s (drawLine dev lineDirection len x y screen s)"
  by (cases lineDirection) (simp_all add: drawLine_def Let_def samePlot_hLineLoop samePlot_vLineLoop)

lemma samePlot_drawRect: "samePlot s (drawRect dev width height x y screen s)"
proof -
  let ?s1 = "drawLine dev horizontal width x y screen s"
  let ?s2 = "drawLine dev horizontal width x ((y + height) - 1) screen ?s1"
  let ?s3 = "drawLine dev vertical height x y screen ?s2"
  let ?s4 = "drawLine dev vertical height ((x + width) - 1) y screen ?s3"
  have "samePlot s ?s4"
    by (rule samePlot_trans [OF samePlot_drawLine samePlot_trans [OF samePlot_drawLine
          samePlot_trans [OF samePlot_drawLine samePlot_drawLine]]])
  then show ?thesis by (simp add: drawRect_def Let_def)
qed

lemma plotReady_run:
  assumes "plotReady s"
  shows "\<exists>s'. run dev c s = Some s' \<and> plotReady s'"
proof (cases c)
  case (Plot v screen)
  from plot_returns [OF assms, of dev v screen] show ?thesis unfolding Plot by simp
qed (use assms in \<open>auto intro: samePlot_ready [rotated] samePlot_initDisplay samePlot_setPixel
      samePlot_clearPixel samePlot_show samePlot_clearLine samePlot_drawLine samePlot_drawRect
      samePlot_clear samePlot_controlDisplayOnOff samePlot_refresh samePlot_invert\<close>)

lemma plotReady_runs: "plotReady s \<Longrightarrow> \<exists>s'. runs dev cs s = Some s' \<and> plotReady s'"
proof (induction cs arbitrary: s)
  case Nil
  then show ?case by simp
next
  case (Cons c cs)
  from plotReady_run [OF Cons.prems, of dev c] obtain s1
    where r: "run dev c s = Some s1" "plotReady s1" by blast
  from Cons.IH [OF r(2)] show ?case by (simp add: r(1))
qed

lemma plotReady_reachable: "\<exists>s'. runs dev cs initial_display = Some s' \<and> plotReady s'"
  by (rule plotReady_runs [OF plotReady_initial])

section \<open>The sample window and the scale, for calls that return\<close>

text \<open>
  C2. Starting from an empty sample buffer, 130 calls of \<open>plot\<close> leave exactly 127 samples:
  the rounded values of calls 4 to 130, in order. The calls return from every well-formed
  plot state, which the state at the start of the program is. In general a call on a buffer
  of 127 entries drops the oldest entry and appends the rounded new one, and a buffer of at
  most 127 entries never grows beyond 127.
\<close>

theorem plot_sliding_window:
  assumes "plotArray s = []" and "length vs = 130"
  shows "(\<forall>s'. plots dev vs s = Some s' \<longrightarrow>
            length (plotArray s') = 127 \<and> plotArray s' = map numRound (drop 3 vs))
       \<and> (plotReady s \<longrightarrow> (\<exists>s'. plots dev vs s = Some s'))
       \<and> (\<forall>t v screen t'. plot dev v screen t = Some t' \<and> length (plotArray t) = 127 \<longrightarrow>
             plotArray t' = tl (plotArray t) @ [numRound v])
       \<and> (\<forall>t v screen t'. plot dev v screen t = Some t' \<and> length (plotArray t) \<le> 127 \<longrightarrow>
             length (plotArray t') \<le> 127)"
proof (intro conjI allI impI)
  fix s' assume r: "plots dev vs s = Some s'"
  have l: "length (plotArray s) \<le> 127" using assms(1) by simp
  show w: "plotArray s' = map numRound (drop 3 vs)"
    using plots_plotArray [OF l r] assms by (simp add: drop_map)
  show "length (plotArray s') = 127" unfolding w using assms(2) by simp
next
  assume "plotReady s"
  from plots_returns [OF this] show "\<exists>s'. plots dev vs s = Some s'" by blast
next
  fix t v screen t'
  assume "plot dev v screen t = Some t' \<and> length (plotArray t) = 127"
  then show "plotArray t' = tl (plotArray t) @ [numRound v]"
    using plot_fields(1) [of dev v screen t t'] by simp
next
  fix t v screen t'
  assume "plot dev v screen t = Some t' \<and> length (plotArray t) \<le> 127"
  then show "length (plotArray t') \<le> 127"
    using plot_fields(1) [of dev v screen t t'] by simp
qed

theorem plot_sliding_window_witness:
  "plotArray initial_display = [] \<and> length (replicate 130 (Finite (5 / 2))) = 130
   \<and> plotReady initial_display
   \<and> (\<exists>s'. plots (\<lambda>_. True) (replicate 130 (Finite (5 / 2))) initial_display = Some s'
          \<and> plotArray s' = replicate 127 (Finite 3))"
proof -
  have h1: "plotArray initial_display = []" by (simp add: initial_display_def)
  have h2: "length (replicate 130 (Finite (5 / 2))) = 130" by simp
  have r: "numRound (Finite (5 / 2)) = Finite 3" by (simp add: numRound_def mathRound_def)
  from plot_sliding_window [OF h1 h2, of "\<lambda>_. True"]
  have a: "\<forall>s'. plots (\<lambda>_. True) (replicate 130 (Finite (5 / 2))) initial_display = Some s' \<longrightarrow>
            plotArray s' = map numRound (drop 3 (replicate 130 (Finite (5 / 2))))"
    and b: "plotReady initial_display \<longrightarrow>
            (\<exists>s'. plots (\<lambda>_. True) (replicate 130 (Finite (5 / 2))) initial_display = Some s')"
    by blast+
  from b plotReady_initial obtain s'
    where s': "plots (\<lambda>_. True) (replicate 130 (Finite (5 / 2))) initial_display = Some s'" by blast
  with a have "plotArray s' = map numRound (drop 3 (replicate 130 (Finite (5 / 2))))" by blast
  then have "plotArray s' = replicate 127 (Finite 3)" by (simp add: r)
  with s' h1 h2 plotReady_initial show ?thesis by blast
qed

text \<open>
  C3 (as amended). After any sequence of \<open>plot\<close> calls from the start of the program (the
  calls return), every value in the sample buffer other than NaN lies between \<open>graphYMin\<close>
  and \<open>graphYMax\<close>; and a further call, whatever its value, returns and neither raises
  \<open>graphYMin\<close> nor lowers \<open>graphYMax\<close>.
\<close>

theorem plot_scale_invariant:
  "\<exists>s'. plots dev vs initial_display = Some s'
     \<and> (\<forall>x \<in> set (plotArray s'). x \<noteq> NaN \<longrightarrow> nle (graphYMin s') x \<and> nle x (graphYMax s'))
     \<and> (\<forall>dev' v screen. \<exists>s''. plot dev' v screen s' = Some s''
           \<and> nle (graphYMin s'') (graphYMin s') \<and> nle (graphYMax s') (graphYMax s''))"
proof -
  from plots_returns [OF plotReady_initial, of dev vs] obtain s'
    where s': "plots dev vs initial_display = Some s'" and r: "plotReady s'" by blast
  have inv: "\<forall>x \<in> set (plotArray s'). x \<noteq> NaN \<longrightarrow> nle (graphYMin s') x \<and> nle x (graphYMax s')"
    using r by (auto simp: plotReady_def list_all_iff)
  have mono: "\<forall>dev' v screen. \<exists>s''. plot dev' v screen s' = Some s''
           \<and> nle (graphYMin s'') (graphYMin s') \<and> nle (graphYMax s') (graphYMax s'')"
  proof (intro allI)
    fix dev' v screen
    from plot_returns [OF r, of dev' v screen] obtain s''
      where p: "plot dev' v screen s' = Some s''" by blast
    from plot_scale_monotone [OF r p] p
    show "\<exists>s''. plot dev' v screen s' = Some s''
           \<and> nle (graphYMin s'') (graphYMin s') \<and> nle (graphYMax s') (graphYMax s'')"
      by blast
  qed
  from s' inv mono show ?thesis by blast
qed

lemma plots_three_values:
  assumes "plots dev [Finite 150, NaN, Finite (- 20)] initial_display = Some s'"
  shows "plotArray s' = [Finite 150, NaN, Finite (- 20)]"
proof -
  have l: "length (plotArray initial_display) \<le> 127" by (simp add: initial_display_def)
  have r: "numRound (Finite 150) = Finite 150" "numRound (Finite (- 20)) = Finite (- 20)"
    "numRound NaN = NaN"
    by (simp_all add: numRound_def mathRound_def)
  from plots_plotArray [OF l assms] show ?thesis by (simp add: r initial_display_def)
qed

theorem plot_scale_invariant_witness:
  "\<exists>s'. plots (\<lambda>_. True) [Finite 150, NaN, Finite (- 20)] initial_display = Some s'
     \<and> plotArray s' = [Finite 150, NaN, Finite (- 20)]
     \<and> nle (graphYMin s') (Finite (- 20)) \<and> nle (Finite 150) (graphYMax s')"
proof -
  from plot_scale_invariant [of "\<lambda>_. True" "[Finite 150, NaN, Finite (- 20)]"] obtain s'
    where s': "plots (\<lambda>_. True) [Finite 150, NaN, Finite (- 20)] initial_display = Some s'"
      and inv: "\<forall>x \<in> set (plotArray s'). x \<noteq> NaN \<longrightarrow> nle (graphYMin s') x \<and> nle x (graphYMax s')"
    by blast
  have a: "plotArray s' = [Finite 150, NaN, Finite (- 20)]" by (rule plots_three_values [OF s'])
  from inv have "nle (graphYMin s') (Finite (- 20))" "nle (Finite 150) (graphYMax s')"
    unfolding a by simp_all
  with s' a show ?thesis by blast
qed

text \<open>
  The claim as written fails for the value NaN, which \<open>plot\<close> accepts like any number:
  \<open>Math.round\<close> leaves it NaN, it is stored, both comparisons with the bounds are false,
  and the bounds stay 0 and 100; NaN lies between no bounds.
\<close>

theorem plot_scale_invariant_counterexample:
  "\<exists>s'. plots (\<lambda>_. True) [NaN] initial_display = Some s'
     \<and> plotArray s' = [NaN] \<and> graphYMin s' = Finite 0 \<and> graphYMax s' = Finite 100
     \<and> \<not> nle (graphYMin s') NaN \<and> \<not> nle NaN (graphYMax s')"
proof -
  from plot_returns [OF plotReady_initial, of "\<lambda>_. True" NaN None] obtain s'
    where p: "plot (\<lambda>_. True) NaN None initial_display = Some s'" by blast
  have r: "numRound NaN = NaN" by (simp add: numRound_def)
  have "plotArray s' = [NaN]" "graphYMin s' = Finite 0" "graphYMax s' = Finite 100"
    unfolding plot_fields [OF p] by (simp_all add: r initial_display_def ngt_def)
  then show ?thesis using p by (simp add: nle_def)
qed

section \<open>Lazy initialisation happens once: the claim\<close>

text \<open>
  C9 (as amended). Once \<open>initialised\<close> is 1 (and the frame buffer has its 1025 bytes), no
  sequence of public display calls other than \<open>initDisplay\<close> itself sends the controller
  configuration again, whatever screen selectors the calls pass: the flag stays 1, and the
  bus writes the calls add contain no multi-byte command and so no copy of the
  configuration sequence for any address, the second controller's included. The calls
  return from every well-formed plot state.
\<close>

theorem no_init_once_initialised:
  assumes "initialised s = 1" and "length (screenBuf s) = 1025"
    and "\<forall>c \<in> set cs. \<forall>screen. c \<noteq> InitDisplay screen"
  shows "(\<forall>s'. runs dev cs s = Some s' \<longrightarrow>
            initialised s' = 1
          \<and> (\<exists>ws. bus s' = bus s @ ws
                \<and> list_all (\<lambda>w. \<not> multiByteCommand w) ws
                \<and> (\<forall>a. \<not> (\<exists>pre post. ws = pre @ initSequence a @ post))))
       \<and> (plotReady s \<longrightarrow> (\<exists>s'. runs dev cs s = Some s'))"
proof -
  have a: "\<forall>s'. runs dev cs s = Some s' \<longrightarrow>
            initialised s' = 1
          \<and> (\<exists>ws. bus s' = bus s @ ws
                \<and> list_all (\<lambda>w. \<not> multiByteCommand w) ws
                \<and> (\<forall>a. \<not> (\<exists>pre post. ws = pre @ initSequence a @ post)))"
  proof (intro allI impI)
    fix s' assume r: "runs dev cs s = Some s'"
    have "quietStep s s'"
      by (rule quiet_runs [OF _ assms(2,3) r]) (use assms(1) in simp)
    then show "initialised s' = 1
          \<and> (\<exists>ws. bus s' = bus s @ ws
                \<and> list_all (\<lambda>w. \<not> multiByteCommand w) ws
                \<and> (\<forall>a. \<not> (\<exists>pre post. ws = pre @ initSequence a @ post)))"
      using assms(1) quiet_no_initSequence by (auto simp: quietStep_def)
  qed
  have b: "plotReady s \<longrightarrow> (\<exists>s'. runs dev cs s = Some s')"
    using plotReady_runs [of s dev cs] by blast
  from a b show ?thesis by (rule conjI)
qed

theorem no_init_once_initialised_witness:
  "initialised (clear (\<lambda>_. True) None initial_display) = 1
   \<and> length (screenBuf (clear (\<lambda>_. True) None initial_display)) = 1025
   \<and> plotReady (clear (\<lambda>_. True) None initial_display)
   \<and> (\<exists>s'. runs (\<lambda>_. True) [SetPixel 0 0 (Some 2), Plot (Finite 5) None, Refresh (Some 2)]
              (clear (\<lambda>_. True) None initial_display) = Some s'
          \<and> initialised s' = 1)"
proof -
  let ?s = "clear (\<lambda>_. True) None initial_display"
  let ?cs = "[SetPixel 0 0 (Some 2), Plot (Finite 5) None, Refresh (Some 2)]"
  have i: "initialised ?s = 1"
    by (simp add: clear_initialised initial_display_def)
  have l: "length (screenBuf ?s) = 1025"
    by (simp add: length_clear initial_display_def)
  have c: "\<forall>c \<in> set ?cs. \<forall>screen. c \<noteq> InitDisplay screen"
    by simp
  have p: "plotReady ?s" by (rule samePlot_ready [OF samePlot_clear plotReady_initial])
  from no_init_once_initialised [OF i l c, of "\<lambda>_. True"]
  have a: "\<forall>s'. runs (\<lambda>_. True) ?cs ?s = Some s' \<longrightarrow> initialised s' = 1"
    and b: "plotReady ?s \<longrightarrow> (\<exists>s'. runs (\<lambda>_. True) ?cs ?s = Some s')"
    by blast+
  from b p obtain s' where s': "runs (\<lambda>_. True) ?cs ?s = Some s'" by blast
  with a have "initialised s' = 1" by blast
  with s' i l p show ?thesis by blast
qed

text \<open>
  The claim as written fails for the public call \<open>initDisplay\<close>, which does not test the
  flag: after \<open>clear()\<close> has initialised the display, \<open>initDisplay(2)\<close> sends the probe
  and then the whole configuration sequence to the second address.
\<close>

theorem no_init_once_initialised_counterexample:
  "initialised (clear (\<lambda>_. True) None initial_display) = 1
   \<and> run (\<lambda>_. True) (InitDisplay (Some 2)) (clear (\<lambda>_. True) None initial_display)
       = Some (initDisplay (\<lambda>_. True) (Some 2) (clear (\<lambda>_. True) None initial_display))
   \<and> take (length (initSequence DISPLAY_ADDR_2))
        (drop (Suc (length (bus (clear (\<lambda>_. True) None initial_display))))
           (bus (initDisplay (\<lambda>_. True) (Some 2) (clear (\<lambda>_. True) None initial_display))))
      = initSequence DISPLAY_ADDR_2
   \<and> (DISPLAY_ADDR_2, [0, 0xD5, 0xF0]) \<in> set (initSequence DISPLAY_ADDR_2)"
proof -
  let ?s = "clear (\<lambda>_. True) None initial_display"
  have i: "initialised ?s = 1"
    by (simp add: clear_initialised initial_display_def)
  have a: "setScreenAddr (Some 2) = DISPLAY_ADDR_2" by (simp add: setScreenAddr_def)
  obtain post where
    "bus (initDisplay (\<lambda>_. True) (Some 2) ?s) =
       bus ?s @ [(DISPLAY_ADDR_2, [0, 0xAF])] @ initSequence DISPLAY_ADDR_2 @ post"
    using initDisplay_bus [of "\<lambda>_. True" "Some 2" ?s] unfolding a by auto
  then have t: "take (length (initSequence DISPLAY_ADDR_2))
        (drop (Suc (length (bus ?s))) (bus (initDisplay (\<lambda>_. True) (Some 2) ?s)))
      = initSequence DISPLAY_ADDR_2"
    by simp
  have m: "(DISPLAY_ADDR_2, [0, 0xD5, 0xF0]) \<in> set (initSequence DISPLAY_ADDR_2)"
    by (simp add: initSequence_def initCommands_def writeOneByte_def writeTwoByte_def
        writeThreeByte_def i2cWriteBuffer_def initial_display_def)
  from i t m show ?thesis by simp
qed

section \<open>What a plot call draws and what it leaves\<close>








lemma numRound_whole [simp]: "numRound (Finite (of_int k)) = Finite (of_int k)"
proof -
  have "mathRound (of_int k) = k" unfolding mathRound_def by linarith
  then show ?thesis by (simp add: numRound_def)
qed

lemma numRound_numeral [simp]: "numRound (Finite (numeral k)) = Finite (numeral k)"
  using numRound_whole [of "numeral k"] by simp

lemma numRound_0 [simp]: "numRound (Finite 0) = Finite 0"
  using numRound_whole [of 0] by simp



text \<open>
  C10 (as amended). A \<open>plot\<close> call that does not perform the lazy initialisation (the
  display is already initialised, or does not answer the probe), on a well-formed plot
  state, returns and leaves unchanged the marker byte at index 0 and every byte of pages 0
  and 1 (indices 1 to 256): the redraw writes only bytes of the pages 2 to 7, which hold
  the rows of the graph band.
\<close>

theorem plot_keeps_upper_pages:
  assumes "plotReady s" and "initialised s \<noteq> 0 \<or> \<not> dev DISPLAY_ADDR_1"
  shows "\<exists>s'. plot dev v screen s = Some s' \<and> length (screenBuf s') = length (screenBuf s)
     \<and> (\<forall>j. j \<le> 256 \<longrightarrow> screenBuf s' ! j = screenBuf s ! j)"
proof -
  from plot_band [OF assms(1), of dev v screen] obtain s'
    where p: "plot dev v screen s = Some s'"
      and low: "\<forall>j. j < 257 \<longrightarrow> screenBuf s' ! j = screenBuf (plotRecorded dev v screen s) ! j"
    by blast
  have b: "screenBuf (plotRecorded dev v screen s) = screenBuf s"
    using assms(2) by (auto simp: plotRecorded_screen(2))
  have "\<forall>j. j \<le> 256 \<longrightarrow> screenBuf s' ! j = screenBuf s ! j"
    using low unfolding b by (simp add: less_Suc_eq_le [symmetric] del: less_Suc_eq_le)
  with p plot_fields(4) [OF p] show ?thesis by blast
qed

theorem plot_keeps_upper_pages_witness:
  "plotReady (initial_display\<lparr>initialised := 1\<rparr>)
   \<and> initialised (initial_display\<lparr>initialised := 1\<rparr>) \<noteq> 0
   \<and> (\<exists>s'. plot (\<lambda>_. True) (Finite 7) None (initial_display\<lparr>initialised := 1\<rparr>) = Some s'
          \<and> screenBuf s' ! 0 = screenBuf (initial_display\<lparr>initialised := 1\<rparr>) ! 0
          \<and> screenBuf s' ! 256 = screenBuf (initial_display\<lparr>initialised := 1\<rparr>) ! 256)"
proof -
  let ?s = "initial_display\<lparr>initialised := 1\<rparr>"
  have r: "plotReady ?s" by (simp add: plotReady_def initial_display_def nle_def)
  have i: "initialised ?s \<noteq> 0" by simp
  have i': "initialised ?s \<noteq> 0 \<or> \<not> True" by simp
  from plot_keeps_upper_pages [OF r i', of "Finite 7" None] obtain s'
    where "plot (\<lambda>_. True) (Finite 7) None ?s = Some s'"
      "\<forall>j. j \<le> 256 \<longrightarrow> screenBuf s' ! j = screenBuf ?s ! j"
    by blast
  then have "plot (\<lambda>_. True) (Finite 7) None ?s = Some s'
      \<and> screenBuf s' ! 0 = screenBuf ?s ! 0 \<and> screenBuf s' ! 256 = screenBuf ?s ! 256"
    by simp
  with r i show ?thesis by blast
qed

text \<open>
  The claim as written fails on the first call of a program: the frame buffer starts
  all zero, and the lazy initialisation inside \<open>plot\<close> stores the marker 0x40 at index 0.
\<close>

theorem plot_keeps_upper_pages_counterexample:
  "screenBuf initial_display ! 0 = 0
   \<and> (\<exists>s'. plot (\<lambda>_. True) (Finite 0) None initial_display = Some s'
          \<and> screenBuf s' ! 0 = 0x40)"
proof -
  from plot_band [OF plotReady_initial, of "\<lambda>_. True" "Finite 0" None] obtain s'
    where p: "plot (\<lambda>_. True) (Finite 0) None initial_display = Some s'"
      and low: "\<forall>j. j < 257 \<longrightarrow>
        screenBuf s' ! j = screenBuf (plotRecorded (\<lambda>_. True) (Finite 0) None initial_display) ! j"
    by blast
  from low have "screenBuf s' ! 0
      = screenBuf (plotRecorded (\<lambda>_. True) (Finite 0) None initial_display) ! 0"
    by simp
  then have "screenBuf s' ! 0 = 0x40"
    by (simp add: plotRecorded_screen(2) initial_display_def setByte_def)
  with p show ?thesis by (simp add: initial_display_def)
qed

end
